theory Spec2Isabelle
  imports Main "HOL-Library.AList"
begin

section \<open>JavaScript values\<close>

text \<open>
  The service handles parsed JSON bodies and the \<open>undefined\<close> that a missing property
  yields. Objects are association lists in key order; a lookup takes the first binding.
  Numbers are modelled as integers (status codes, flags); fractional numbers do not occur
  in any path the theorems below look at. A \<open>string\<close> is a list of code units below 256,
  so \<open>length\<close> is JavaScript's \<open>.length\<close> on Latin-1 text.
\<close>

datatype jsval =
    Undefined
  | Null
  | Bool bool
  | Num int
  | Str string
  | Arr "jsval list"
  | Obj "(string \<times> jsval) list"

text \<open>A thrown JavaScript error: its \<open>message\<close> and, for an axios error that carries
  one, the \<open>response\<close> (status code and body).\<close>

datatype js_error = Error string "(int \<times> jsval) option"

fun message_of :: "js_error \<Rightarrow> string" where
  "message_of (Error m r) = m"

fun response_of :: "js_error \<Rightarrow> (int \<times> jsval) option" where
  "response_of (Error m r) = r"

text \<open>\<open>error.response?.status\<close>\<close>

definition response_status :: "js_error \<Rightarrow> int option" where
  "response_status e = map_option fst (response_of e)"

text \<open>ToBoolean.\<close>

fun truthy :: "jsval \<Rightarrow> bool" where
  "truthy Undefined = False"
| "truthy Null = False"
| "truthy (Bool b) = b"
| "truthy (Num n) = (n \<noteq> 0)"
| "truthy (Str s) = (s \<noteq> [])"
| "truthy (Arr xs) = True"
| "truthy (Obj kvs) = True"

text \<open>\<open>a || b\<close>\<close>

definition js_or :: "jsval \<Rightarrow> jsval \<Rightarrow> jsval" where
  "js_or a b = (if truthy a then a else b)"

text \<open>
  \<open>x.k\<close> for a receiver that is neither \<open>null\<close> nor \<open>undefined\<close>. The property names
  the service reads (\<open>status\<close>, \<open>success\<close>, \<open>data\<close>, \<open>access_token\<close>, \<open>verified\<close>,
  \<open>fieldVerificationResult\<close>, \<open>statusCode\<close>, \<open>photo\<close>, \<open>personDetails\<close>, \<open>image\<close>,
  \<open>picture\<close>, \<open>avatar\<close>, \<open>signature\<close>) are not built-in properties of strings, numbers,
  booleans or arrays, so on those receivers the read gives \<open>undefined\<close>.
\<close>

fun field :: "jsval \<Rightarrow> string \<Rightarrow> jsval" where
  "field (Obj kvs) k = (case map_of kvs k of Some v \<Rightarrow> v | None \<Rightarrow> Undefined)"
| "field v k = Undefined"

text \<open>\<open>x.k\<close> in general: reading a property of \<open>null\<close> or \<open>undefined\<close> throws a TypeError
  (message as V8 words it).\<close>

fun get_prop :: "jsval \<Rightarrow> string \<Rightarrow> js_error + jsval" where
  "get_prop Undefined k =
     Inl (Error (''Cannot read properties of undefined (reading '' @ [CHR 0x27] @ k @ [CHR 0x27] @ '')'') None)"
| "get_prop Null k =
     Inl (Error (''Cannot read properties of null (reading '' @ [CHR 0x27] @ k @ [CHR 0x27] @ '')'') None)"
| "get_prop v k = Inr (field v k)"

text \<open>\<open>x?.k\<close>\<close>

fun opt_field :: "jsval \<Rightarrow> string \<Rightarrow> jsval" where
  "opt_field Undefined k = Undefined"
| "opt_field Null k = Undefined"
| "opt_field v k = field v k"

text \<open>\<open>x.k = v\<close> on an object; on a primitive the assignment has no effect.\<close>

fun set_field :: "jsval \<Rightarrow> string \<Rightarrow> jsval \<Rightarrow> jsval" where
  "set_field (Obj kvs) k v = Obj (AList.update k v kvs)"
| "set_field x k v = x"

text \<open>Decimal digits of a number, for template literals.\<close>

fun show_nat :: "nat \<Rightarrow> string" where
  "show_nat n =
     (if n < 10 then [char_of (48 + n)] else show_nat (n div 10) @ [char_of (48 + n mod 10)])"

definition show_int :: "int \<Rightarrow> string" where
  "show_int i = (if i < 0 then CHR ''-'' # show_nat (nat (- i)) else show_nat (nat i))"

fun join :: "string \<Rightarrow> string list \<Rightarrow> string" where
  "join sep [] = []"
| "join sep [x] = x"
| "join sep (x # y # ys) = x @ sep @ join sep (y # ys)"

text \<open>ToString, as a template literal \<open>`${v}`\<close> applies it.\<close>

fun to_string :: "jsval \<Rightarrow> string" where
  "to_string Undefined = ''undefined''"
| "to_string Null = ''null''"
| "to_string (Bool b) = (if b then ''true'' else ''false'')"
| "to_string (Num n) = show_int n"
| "to_string (Str s) = s"
| "to_string (Arr xs) =
     join '','' (map (\<lambda>x. if x = Undefined \<or> x = Null then [] else to_string x) xs)"
| "to_string (Obj kvs) = ''[object Object]''"

section \<open>The environment: registry, image host, platform\<close>

text \<open>
  What an HTTP request meets: a reply with a status code and a parsed body, or no reply at
  all (connection refused, the 30000 ms timeout), with the message axios gives the error.
\<close>

datatype outcome = Reply int jsval | NoReply string

text \<open>The image host's answer: status, \<open>content-type\<close> header and the bytes, or no reply.\<close>

datatype fetched = Image int jsval string | NoImage string

text \<open>
  Everything outside the repository is a parameter: the replies of the registry's two
  endpoints and of the image host (which may depend on how many requests were sent before
  and on what is sent), the time each request takes, the platform's \<open>URL\<close> parser
  (protocol and pathname, or \<open>None\<close> where \<open>new URL\<close> throws) and base64 encoder, and the
  credentials of \<open>process.env\<close>.
\<close>

record environment =
  login_reply :: "nat \<Rightarrow> jsval \<Rightarrow> outcome"
  verify_reply :: "nat \<Rightarrow> string \<Rightarrow> jsval \<Rightarrow> outcome"
  image_reply :: "nat \<Rightarrow> jsval \<Rightarrow> fetched"
  elapsed :: "nat \<Rightarrow> int"
  parse_url :: "string \<Rightarrow> (string \<times> string) option"
  base64 :: "string \<Rightarrow> string"
  username :: jsval
  password :: jsval

text \<open>A request the service sent: login payload; \<open>Authorization\<close> header and verification
  payload; image URL.\<close>

datatype call = Login jsval | Verification string jsval | Fetch jsval

text \<open>
  The mutable state: the two credential fields of the \<open>NIDService\<close> singleton
  (\<open>tokenExpiry\<close> in milliseconds, \<open>None\<close> for \<open>null\<close>), the wall clock in milliseconds,
  and the requests sent so far, oldest first.
\<close>

record world =
  accessToken :: jsval
  tokenExpiry :: "int option"
  clock :: int
  calls :: "call list"

text \<open>
  axios: a request with no reply throws an error without \<open>response\<close>; a reply whose status
  \<open>validateStatus\<close> rejects throws an error carrying the response; any other reply is
  returned.
\<close>

definition axios_result :: "(int \<Rightarrow> bool) \<Rightarrow> outcome \<Rightarrow> js_error + (int \<times> jsval)" where
  "axios_result validateStatus out =
     (case out of
        NoReply m \<Rightarrow> Inl (Error m None)
      | Reply st d \<Rightarrow>
          if validateStatus st then Inr (st, d)
          else Inl (Error (''Request failed with status code '' @ show_int st) (Some (st, d))))"

text \<open>Sending a request appends it to the log and lets its duration pass.\<close>

definition send :: "environment \<Rightarrow> call \<Rightarrow> world \<Rightarrow> world" where
  "send E c w = w\<lparr>clock := clock w + elapsed E (length (calls w)), calls := calls w @ [c]\<rparr>"

section \<open>Credential cache\<close>

text \<open>
  \<open>authenticate\<close>: the \<open>try\<close> block posts the login payload, accepts every status below
  500 and looks for \<open>status === 'OK'\<close> with a truthy \<open>success?.data?.access_token\<close>. The
  \<open>catch\<close> block has three branches. An error that carries a response (status 500 or
  above) and an error that carries neither response nor request (a TypeError, the format
  error of the \<open>try\<close> block itself) are rethrown under the prefix
  \<open>Authentication failed: \<close>. For a request that got no reply the branch
  \<open>else if (error.request)\<close> evaluates \<open>JSON.stringify(error.request, null, 2)\<close> for its
  log line; the request object of axios refers back to itself, so \<open>JSON.stringify\<close> throws
  a TypeError there and the rethrow of line 64 is not reached (of V8's message only the
  first line is kept). Logger calls have no effect on the state and are otherwise left out
  throughout.
\<close>

definition authenticate :: "environment \<Rightarrow> world \<Rightarrow> world \<times> (js_error + bool)" where
  "authenticate E w =
     (let authPayload = Obj [(''username'', username E), (''password'', password E)];
          w1 = send E (Login authPayload) w
      in case login_reply E (length (calls w)) authPayload of
           NoReply m \<Rightarrow> (w1, Inl (Error ''Converting circular structure to JSON'' None))
         | Reply status d0 \<Rightarrow>
             (let attempt =
                    (case axios_result (\<lambda>status. status < 500) (Reply status d0) of
                       Inl e \<Rightarrow> (w1, Inl e)
                     | Inr (st, d) \<Rightarrow>
                         (case get_prop d ''status'' of
                            Inl e \<Rightarrow> (w1, Inl e)
                          | Inr s \<Rightarrow>
                              let token = opt_field (opt_field (field d ''success'') ''data'')
                                            ''access_token''
                              in if s = Str ''OK'' \<and> truthy token
                                 then (w1\<lparr>accessToken := token,
                                           tokenExpiry := Some (clock w1 + 60 * 60 * 1000)\<rparr>,
                                       Inr True)
                                 else (w1, Inl (Error
                                         ''Authentication failed: Invalid response format'' None))))
              in case attempt of
                   (w2, Inl e) \<Rightarrow>
                     (w2, Inl (Error (''Authentication failed: '' @ message_of e) None))
                 | (w2, Inr b) \<Rightarrow> (w2, Inr b)))"

text \<open>\<open>if (!this.accessToken || (this.tokenExpiry && new Date() >= this.tokenExpiry))\<close>\<close>

definition ensureValidToken :: "environment \<Rightarrow> world \<Rightarrow> world \<times> (js_error + unit)" where
  "ensureValidToken E w =
     (if \<not> truthy (accessToken w)
         \<or> (case tokenExpiry w of None \<Rightarrow> False | Some expiry \<Rightarrow> clock w \<ge> expiry)
      then (case authenticate E w of
              (w1, Inl e) \<Rightarrow> (w1, Inl e)
            | (w1, Inr b) \<Rightarrow> (w1, Inr ()))
      else (w, Inr ()))"

section \<open>Concurrent callers of the credential cache\<close>

text \<open>
  JavaScript runs a caller without interruption up to its next \<open>await\<close>. A caller of
  \<open>ensureValidToken\<close> therefore takes two uninterrupted steps: entering, it tests the cached
  credential and, if it must authenticate, sends the login request and suspends at
  \<open>await axios.post\<close>; resumed with the reply to that request, it runs the rest of
  \<open>authenticate\<close>. Other callers may take steps in between.
\<close>

definition authPayload :: "environment \<Rightarrow> jsval" where
  "authPayload E = Obj [(''username'', username E), (''password'', password E)]"

text \<open>\<open>authenticate\<close> up to the \<open>await\<close>: the request goes out.\<close>

definition authenticate_issue :: "environment \<Rightarrow> world \<Rightarrow> world" where
  "authenticate_issue E w = w\<lparr>calls := calls w @ [Login (authPayload E)]\<rparr>"

text \<open>\<open>authenticate\<close> from the \<open>await\<close> on, with the reply to request number \<open>n\<close>.\<close>

definition authenticate_resume :: "environment \<Rightarrow> nat \<Rightarrow> world \<Rightarrow> world \<times> (js_error + bool)" where
  "authenticate_resume E n w =
     (let w1 = w\<lparr>clock := clock w + elapsed E n\<rparr>
      in case login_reply E n (authPayload E) of
           NoReply m \<Rightarrow> (w1, Inl (Error ''Converting circular structure to JSON'' None))
         | Reply status d0 \<Rightarrow>
             (let attempt =
                    (case axios_result (\<lambda>status. status < 500) (Reply status d0) of
                       Inl e \<Rightarrow> (w1, Inl e)
                     | Inr (st, d) \<Rightarrow>
                         (case get_prop d ''status'' of
                            Inl e \<Rightarrow> (w1, Inl e)
                          | Inr s \<Rightarrow>
                              let token = opt_field (opt_field (field d ''success'') ''data'')
                                            ''access_token''
                              in if s = Str ''OK'' \<and> truthy token
                                 then (w1\<lparr>accessToken := token,
                                           tokenExpiry := Some (clock w1 + 60 * 60 * 1000)\<rparr>,
                                       Inr True)
                                 else (w1, Inl (Error
                                         ''Authentication failed: Invalid response format'' None))))
              in case attempt of
                   (w2, Inl e) \<Rightarrow>
                     (w2, Inl (Error (''Authentication failed: '' @ message_of e) None))
                 | (w2, Inr b) \<Rightarrow> (w2, Inr b)))"

text \<open>A caller has not entered yet, awaits the reply to a request, or has returned.\<close>

datatype caller = Entering | Awaiting nat | Returned "js_error + unit"

datatype event = Enter nat | Resume nat

definition ensureValidToken_enter :: "environment \<Rightarrow> world \<Rightarrow> world \<times> caller" where
  "ensureValidToken_enter E w =
     (if \<not> truthy (accessToken w)
         \<or> (case tokenExpiry w of None \<Rightarrow> False | Some expiry \<Rightarrow> clock w \<ge> expiry)
      then (authenticate_issue E w, Awaiting (length (calls w)))
      else (w, Returned (Inr ())))"

definition ensureValidToken_resume :: "environment \<Rightarrow> nat \<Rightarrow> world \<Rightarrow> world \<times> caller" where
  "ensureValidToken_resume E n w =
     (case authenticate_resume E n w of
        (w1, Inl e) \<Rightarrow> (w1, Returned (Inl e))
      | (w1, Inr b) \<Rightarrow> (w1, Returned (Inr ())))"

text \<open>One step of caller \<open>i\<close>; a step that does not apply leaves everything as it is.\<close>

fun step :: "environment \<Rightarrow> world \<times> caller list \<Rightarrow> event \<Rightarrow> world \<times> caller list" where
  "step E (w, cs) (Enter i) =
     (if i < length cs \<and> cs ! i = Entering
      then (case ensureValidToken_enter E w of (w1, c) \<Rightarrow> (w1, cs[i := c]))
      else (w, cs))"
| "step E (w, cs) (Resume i) =
     (if i < length cs
      then (case cs ! i of
              Awaiting n \<Rightarrow> (case ensureValidToken_resume E n w of (w1, c) \<Rightarrow> (w1, cs[i := c]))
            | _ \<Rightarrow> (w, cs))
      else (w, cs))"

definition run :: "environment \<Rightarrow> event list \<Rightarrow> world \<times> caller list \<Rightarrow> world \<times> caller list" where
  "run E evs st = foldl (step E) st evs"

section \<open>Identification channel and outbound payload\<close>

text \<open>\<open>const nidType = nid.length === 17 ? 'nid17Digit' : 'nid10Digit'\<close>\<close>

definition nidType :: "string \<Rightarrow> string" where
  "nidType nid = (if length nid = 17 then ''nid17Digit'' else ''nid10Digit'')"

definition requestPayload :: "string \<Rightarrow> string \<Rightarrow> string \<Rightarrow> jsval" where
  "requestPayload nid dateOfBirth nameEn =
     Obj [(''identify'', Obj [(nidType nid, Str nid)]),
          (''verify'', Obj [(''nameEn'', Str nameEn), (''dateOfBirth'', Str dateOfBirth)])]"

section \<open>Asset inliner\<close>

text \<open>\<open>String.prototype.toLowerCase\<close> on the letters A to Z; other code units stay.\<close>

definition lower_char :: "char \<Rightarrow> char" where
  "lower_char c =
     (if 65 \<le> (of_char c :: nat) \<and> (of_char c :: nat) \<le> 90 then char_of ((of_char c :: nat) + 32) else c)"

definition toLowerCase :: "string \<Rightarrow> string" where
  "toLowerCase s = map lower_char s"

fun startsWith :: "string \<Rightarrow> string \<Rightarrow> bool" where
  "startsWith s [] = True"
| "startsWith [] (p # ps) = False"
| "startsWith (c # cs) (p # ps) = (c = p \<and> startsWith cs ps)"

text \<open>\<open>String.prototype.includes\<close>\<close>

fun includes_str :: "string \<Rightarrow> string \<Rightarrow> bool" where
  "includes_str [] sub = (sub = [])"
| "includes_str (c # cs) sub = (startsWith (c # cs) sub \<or> includes_str cs sub)"

definition validProtocols :: "string list" where
  "validProtocols = [''http:'', ''https:'']"

definition validExtensions :: "string list" where
  "validExtensions = [''.jpg'', ''.jpeg'', ''.png'', ''.gif'', ''.bmp'', ''.webp'']"

definition isValidImageUrl :: "environment \<Rightarrow> jsval \<Rightarrow> bool" where
  "isValidImageUrl E url =
     (case parse_url E (to_string url) of
        None \<Rightarrow> False
      | Some (protocol, pathname) \<Rightarrow>
          if protocol \<notin> set validProtocols then False
          else list_ex (\<lambda>ext. includes_str (toLowerCase pathname) ext) validExtensions)"

text \<open>
  \<open>fetchImageAsBase64\<close>: a GET with axios' default \<open>validateStatus\<close> (200 to 299); every
  failure is rethrown as \<open>Failed to fetch image: ...\<close>.
\<close>

definition fetchImageAsBase64 :: "environment \<Rightarrow> world \<Rightarrow> jsval \<Rightarrow> world \<times> (js_error + jsval)" where
  "fetchImageAsBase64 E w imageUrl =
     (let w1 = send E (Fetch imageUrl) w
      in case image_reply E (length (calls w)) imageUrl of
           NoImage m \<Rightarrow> (w1, Inl (Error (''Failed to fetch image: '' @ m) None))
         | Image st contentType bytes \<Rightarrow>
             if 200 \<le> st \<and> st < 300
             then (w1, Inr (Str (''data:'' @ to_string (js_or contentType (Str ''image/jpeg''))
                                 @ '';base64,'' @ base64 E bytes)))
             else (w1, Inl (Error (''Failed to fetch image: Request failed with status code ''
                                   @ show_int st) None)))"

text \<open>
  \<open>processPhoto(personData)\<close> mutates \<open>personData.photo\<close> in place; the model returns the
  person data after the call. The \<open>catch\<close> block swallows every error.
\<close>

definition processPhoto :: "environment \<Rightarrow> world \<Rightarrow> jsval \<Rightarrow> world \<times> jsval" where
  "processPhoto E w personData =
     (if \<not> truthy (field personData ''photo'') \<or> \<not> isValidImageUrl E (field personData ''photo'')
      then (w, personData)
      else (case fetchImageAsBase64 E w (field personData ''photo'') of
              (w1, Inl e) \<Rightarrow> (w1, personData)
            | (w1, Inr base64Photo) \<Rightarrow> (w1, set_field personData ''photo'' base64Photo)))"

section \<open>Audit sink\<close>

subsection \<open>Sanitization\<close>

text \<open>
  \<open>JSON.parse(JSON.stringify(x))\<close> on a value: a property whose value is \<open>undefined\<close> is
  dropped, an \<open>undefined\<close> array element becomes \<open>null\<close>; everything else is copied.
\<close>

fun json_copy :: "jsval \<Rightarrow> jsval" where
  "json_copy (Arr xs) = Arr (map (\<lambda>x. if x = Undefined then Null else json_copy x) xs)"
| "json_copy (Obj kvs) =
     Obj (map (\<lambda>kv. (fst kv, json_copy (snd kv))) (filter (\<lambda>kv. snd kv \<noteq> Undefined) kvs))"
| "json_copy v = v"

text \<open>A value as \<open>JSON.parse\<close> produces it: no \<open>undefined\<close> anywhere.\<close>

fun is_json :: "jsval \<Rightarrow> bool" where
  "is_json Undefined = False"
| "is_json (Arr xs) = list_all is_json xs"
| "is_json (Obj kvs) = list_all (\<lambda>kv. is_json (snd kv)) kvs"
| "is_json v = True"

text \<open>\<open>typeof x === 'object'\<close>\<close>

fun is_object :: "jsval \<Rightarrow> bool" where
  "is_object Null = True"
| "is_object (Arr xs) = True"
| "is_object (Obj kvs) = True"
| "is_object v = False"

definition upper_char :: "char \<Rightarrow> char" where
  "upper_char c =
     (if 97 \<le> (of_char c :: nat) \<and> (of_char c :: nat) \<le> 122 then char_of ((of_char c :: nat) - 32) else c)"

definition toUpperCase :: "string \<Rightarrow> string" where
  "toUpperCase s = map upper_char s"

definition largeFields :: "string list" where
  "largeFields = [''image'', ''photo'', ''picture'', ''avatar'', ''signature'']"

text \<open>The body of the \<open>largeFields.forEach\<close> callback.\<close>

definition redact_large :: "jsval \<Rightarrow> string \<Rightarrow> jsval" where
  "redact_large sanitized f =
     (let d = field sanitized ''data''
      in if truthy d \<and> truthy (field d f)
            \<and> (case field d f of Str s \<Rightarrow> startsWith s ''data:'' | _ \<Rightarrow> False)
         then set_field sanitized ''data''
                (set_field d f (Str (''['' @ toUpperCase f @ ''_DATA_REMOVED_FOR_STORAGE]'')))
         else sanitized)"

text \<open>\<open>sanitizeResponseData\<close>, on values: the deep copy, then the three passes in order.\<close>

definition redact_personDetails :: "jsval \<Rightarrow> jsval" where
  "redact_personDetails sanitized =
     (let d = field sanitized ''data''; pd = field d ''personDetails''
      in if truthy d \<and> truthy pd \<and> truthy (field pd ''photo'')
         then set_field sanitized ''data''
                (set_field d ''personDetails''
                   (set_field pd ''photo'' (Str ''[PHOTO_DATA_REMOVED_FOR_STORAGE]'')))
         else sanitized)"

definition redact_photo :: "jsval \<Rightarrow> jsval" where
  "redact_photo sanitized =
     (let d = field sanitized ''data''
      in if truthy d \<and> truthy (field d ''photo'')
         then set_field sanitized ''data''
                (set_field d ''photo'' (Str ''[PHOTO_DATA_REMOVED_FOR_STORAGE]''))
         else sanitized)"

definition sanitizeResponseData :: "jsval \<Rightarrow> jsval" where
  "sanitizeResponseData d =
     (if \<not> truthy d \<or> \<not> is_object d then d
      else foldl redact_large (redact_photo (redact_personDetails (json_copy d))) largeFields)"

subsection \<open>Sanitization on a heap\<close>

text \<open>
  Whether \<open>sanitizeResponseData\<close> changes its argument is a question about objects shared
  by reference, so here objects live in a store: a value is a primitive or the address of
  a cell, a cell holds the properties of an object or the elements of an array, and the
  heap is the list of cells, a new cell taking the next address.
\<close>

datatype hval = HUndefined | HNull | HBool bool | HNum int | HStr string | HRef nat

datatype cell = ObjCell "(string \<times> hval) list" | ArrCell "hval list"

type_synonym heap = "cell list"

fun those_fields :: "(string \<times> jsval option) list \<Rightarrow> (string \<times> jsval) list option" where
  "those_fields [] = Some []"
| "those_fields ((k, None) # kvs) = None"
| "those_fields ((k, Some v) # kvs) = map_option ((#) (k, v)) (those_fields kvs)"

text \<open>
  The value tree under a heap value, as \<open>JSON.stringify\<close> walks it. The fuel bounds the
  nesting depth: a walk through more cells than the heap has passes some cell twice, which
  is where \<open>JSON.stringify\<close> throws its circular-structure TypeError.
\<close>

fun snapshot :: "nat \<Rightarrow> heap \<Rightarrow> hval \<Rightarrow> jsval option" where
  "snapshot n h HUndefined = Some Undefined"
| "snapshot n h HNull = Some Null"
| "snapshot n h (HBool b) = Some (Bool b)"
| "snapshot n h (HNum i) = Some (Num i)"
| "snapshot n h (HStr s) = Some (Str s)"
| "snapshot 0 h (HRef a) = None"
| "snapshot (Suc n) h (HRef a) =
     (if a < length h
      then (case h ! a of
              ObjCell kvs \<Rightarrow>
                map_option Obj (those_fields (map (\<lambda>kv. (fst kv, snapshot n h (snd kv))) kvs))
            | ArrCell vs \<Rightarrow> map_option Arr (those (map (snapshot n h) vs)))
      else None)"

text \<open>Building a value tree in the heap, as \<open>JSON.parse\<close> does: every object and array
  gets a new cell.\<close>

fun alloc :: "jsval \<Rightarrow> heap \<Rightarrow> hval \<times> heap"
  and alloc_list :: "jsval list \<Rightarrow> heap \<Rightarrow> hval list \<times> heap"
  and alloc_fields :: "(string \<times> jsval) list \<Rightarrow> heap \<Rightarrow> (string \<times> hval) list \<times> heap" where
  "alloc Undefined h = (HUndefined, h)"
| "alloc Null h = (HNull, h)"
| "alloc (Bool b) h = (HBool b, h)"
| "alloc (Num n) h = (HNum n, h)"
| "alloc (Str s) h = (HStr s, h)"
| "alloc (Arr xs) h = (case alloc_list xs h of (vs, h1) \<Rightarrow> (HRef (length h1), h1 @ [ArrCell vs]))"
| "alloc (Obj kvs) h = (case alloc_fields kvs h of (fs, h1) \<Rightarrow> (HRef (length h1), h1 @ [ObjCell fs]))"
| "alloc_list [] h = ([], h)"
| "alloc_list (x # xs) h =
     (case alloc x h of (v, h1) \<Rightarrow> (case alloc_list xs h1 of (vs, h2) \<Rightarrow> (v # vs, h2)))"
| "alloc_fields [] h = ([], h)"
| "alloc_fields ((k, x) # kvs) h =
     (case alloc x h of (v, h1) \<Rightarrow> (case alloc_fields kvs h1 of (fs, h2) \<Rightarrow> ((k, v) # fs, h2)))"

fun htruthy :: "hval \<Rightarrow> bool" where
  "htruthy HUndefined = False"
| "htruthy HNull = False"
| "htruthy (HBool b) = b"
| "htruthy (HNum n) = (n \<noteq> 0)"
| "htruthy (HStr s) = (s \<noteq> [])"
| "htruthy (HRef a) = True"

fun his_object :: "hval \<Rightarrow> bool" where
  "his_object HNull = True"
| "his_object (HRef a) = True"
| "his_object v = False"

fun hfield :: "heap \<Rightarrow> hval \<Rightarrow> string \<Rightarrow> hval" where
  "hfield h (HRef a) k =
     (if a < length h
      then (case h ! a of
              ObjCell kvs \<Rightarrow> (case map_of kvs k of Some v \<Rightarrow> v | None \<Rightarrow> HUndefined)
            | ArrCell vs \<Rightarrow> HUndefined)
      else HUndefined)"
| "hfield h v k = HUndefined"

fun hset_field :: "heap \<Rightarrow> hval \<Rightarrow> string \<Rightarrow> hval \<Rightarrow> heap" where
  "hset_field h (HRef a) k v =
     (if a < length h
      then (case h ! a of
              ObjCell kvs \<Rightarrow> h[a := ObjCell (AList.update k v kvs)]
            | ArrCell vs \<Rightarrow> h)
      else h)"
| "hset_field h x k v = h"

text \<open>The three passes of \<open>sanitizeResponseData\<close>, writing through references.\<close>

definition hredact_personDetails :: "heap \<Rightarrow> hval \<Rightarrow> heap" where
  "hredact_personDetails h sanitized =
     (let d = hfield h sanitized ''data''; pd = hfield h d ''personDetails''
      in if htruthy d \<and> htruthy pd \<and> htruthy (hfield h pd ''photo'')
         then hset_field h pd ''photo'' (HStr ''[PHOTO_DATA_REMOVED_FOR_STORAGE]'')
         else h)"

definition hredact_photo :: "heap \<Rightarrow> hval \<Rightarrow> heap" where
  "hredact_photo h sanitized =
     (let d = hfield h sanitized ''data''
      in if htruthy d \<and> htruthy (hfield h d ''photo'')
         then hset_field h d ''photo'' (HStr ''[PHOTO_DATA_REMOVED_FOR_STORAGE]'')
         else h)"

definition hredact_large :: "hval \<Rightarrow> heap \<Rightarrow> string \<Rightarrow> heap" where
  "hredact_large sanitized h f =
     (let d = hfield h sanitized ''data''
      in if htruthy d \<and> htruthy (hfield h d f)
            \<and> (case hfield h d f of HStr s \<Rightarrow> startsWith s ''data:'' | _ \<Rightarrow> False)
         then hset_field h d f (HStr (''['' @ toUpperCase f @ ''_DATA_REMOVED_FOR_STORAGE]''))
         else h)"

definition sanitizeResponseData_heap :: "heap \<Rightarrow> hval \<Rightarrow> heap \<times> (js_error + hval)" where
  "sanitizeResponseData_heap h d =
     (if \<not> htruthy d \<or> \<not> his_object d then (h, Inr d)
      else (case snapshot (Suc (length h)) h d of
              None \<Rightarrow> (h, Inl (Error ''Converting circular structure to JSON'' None))
            | Some j \<Rightarrow>
                (case alloc (json_copy j) h of
                   (sanitized, h1) \<Rightarrow>
                     (foldl (hredact_large sanitized)
                        (hredact_photo (hredact_personDetails h1 sanitized) sanitized) largeFields,
                      Inr sanitized))))"

text \<open>The response with the inlined photo, as three cells; the response object is cell 2.\<close>

definition photo_heap :: heap where
  "photo_heap =
     [ObjCell [(''name'', HStr ''Jane Doe''), (''photo'', HStr ''data:image/jpeg;base64,AAA'')],
      ObjCell [(''nid'', HStr ''12345678901234567''), (''verified'', HBool True),
               (''personDetails'', HRef 0)],
      ObjCell [(''success'', HBool True), (''data'', HRef 1)]]"


text \<open>Values and cells that refer to no address below \<open>n\<close>; a heap that extends another
  by such cells only.\<close>

fun fresh_val :: "nat \<Rightarrow> hval \<Rightarrow> bool" where
  "fresh_val n (HRef a) = (n \<le> a)"
| "fresh_val n v = True"

fun fresh_cell :: "nat \<Rightarrow> cell \<Rightarrow> bool" where
  "fresh_cell n (ObjCell kvs) = list_all (\<lambda>kv. fresh_val n (snd kv)) kvs"
| "fresh_cell n (ArrCell vs) = list_all (fresh_val n) vs"

definition extends :: "heap \<Rightarrow> heap \<Rightarrow> bool" where
  "extends h h1 = (length h \<le> length h1 \<and> take (length h) h1 = h
                   \<and> list_all (fresh_cell (length h)) (drop (length h) h1))"

text \<open>
  How a heap holds a value tree after \<open>JSON.parse\<close> and after writes into the copy:
  \<open>rep_in h lo hi v x\<close> says that the heap value \<open>v\<close> stands for the tree \<open>x\<close> and that
  every cell it is read from lies in the address interval from \<open>lo\<close> up to \<open>hi\<close>, the
  cell of an object or array above the cells of its parts and the parts side by side in
  disjoint intervals. Cells of the interval that are no longer referred to are allowed.
\<close>

inductive rep_in :: "heap \<Rightarrow> nat \<Rightarrow> nat \<Rightarrow> hval \<Rightarrow> jsval \<Rightarrow> bool"
  and reps_fields :: "heap \<Rightarrow> nat \<Rightarrow> nat \<Rightarrow> (string \<times> hval) list \<Rightarrow> (string \<times> jsval) list \<Rightarrow> bool"
  and reps_list :: "heap \<Rightarrow> nat \<Rightarrow> nat \<Rightarrow> hval list \<Rightarrow> jsval list \<Rightarrow> bool" where
  rep_Undefined: "lo \<le> hi \<Longrightarrow> rep_in h lo hi HUndefined Undefined"
| rep_Null: "lo \<le> hi \<Longrightarrow> rep_in h lo hi HNull Null"
| rep_Bool: "lo \<le> hi \<Longrightarrow> rep_in h lo hi (HBool b) (Bool b)"
| rep_Num: "lo \<le> hi \<Longrightarrow> rep_in h lo hi (HNum i) (Num i)"
| rep_Str: "lo \<le> hi \<Longrightarrow> rep_in h lo hi (HStr s) (Str s)"
| rep_Obj: "a < length h \<Longrightarrow> h ! a = ObjCell fs \<Longrightarrow> reps_fields h lo a fs kvs \<Longrightarrow> a < hi
            \<Longrightarrow> rep_in h lo hi (HRef a) (Obj kvs)"
| rep_Arr: "a < length h \<Longrightarrow> h ! a = ArrCell vs \<Longrightarrow> reps_list h lo a vs xs \<Longrightarrow> a < hi
            \<Longrightarrow> rep_in h lo hi (HRef a) (Arr xs)"
| fields_Nil: "lo \<le> hi \<Longrightarrow> reps_fields h lo hi [] []"
| fields_Cons: "rep_in h lo mid v x \<Longrightarrow> reps_fields h mid hi fs kvs
            \<Longrightarrow> reps_fields h lo hi ((k, v) # fs) ((k, x) # kvs)"
| list_Nil: "lo \<le> hi \<Longrightarrow> reps_list h lo hi [] []"
| list_Cons: "rep_in h lo mid v x \<Longrightarrow> reps_list h mid hi vs xs
            \<Longrightarrow> reps_list h lo hi (v # vs) (x # xs)"

text \<open>The same heap after the copy has been built, with the given photo in the copy.\<close>

definition photo_copy :: "string \<Rightarrow> heap" where
  "photo_copy photo = photo_heap @
          [ObjCell [(''name'', HStr ''Jane Doe''), (''photo'', HStr photo)],
           ObjCell [(''nid'', HStr ''12345678901234567''), (''verified'', HBool True),
                    (''personDetails'', HRef 3)],
           ObjCell [(''success'', HBool True), (''data'', HRef 4)]]"

subsection \<open>Recording a request\<close>

text \<open>The platform's JSON codec: \<open>JSON.parse\<close> (\<open>None\<close> where it throws) and
  \<open>JSON.stringify\<close>.\<close>

record codec =
  json_parse :: "string \<Rightarrow> jsval option"
  json_stringify :: "jsval \<Rightarrow> jsval"

text \<open>What the logger reads of the request: \<open>req.body\<close> and \<open>req.systemInfo\<close>.\<close>

record request =
  body :: jsval
  systemInfo :: jsval

text \<open>\<open>logData\<close>, one row of \<open>request_logs\<close>; the two JSON columns hold the documents that
  are serialised into them.\<close>

record log_row =
  request_id :: string
  client_ip :: jsval
  system_name :: jsval
  row_nid :: jsval
  request_data :: jsval
  response_data :: jsval
  status :: string
  error_message :: jsval
  processing_time_ms :: int

text \<open>
  The repository holds two copies of the logging middleware, alike except for one
  statement. The copy in \<open>src/unnamed/part_001\<close> passes the parsed response through
  \<open>sanitizeResponseData\<close> (its line 90); the copy in
  \<open>src/src/middleware/requestLogger.js\<close>, the path the server requires, stores the parsed
  response as it is (its lines 40 to 48). That statement is the parameter \<open>sanitize\<close> of the
  definitions below: \<open>sanitizeResponseData\<close> gives the first copy, the identity the second.
\<close>

text \<open>The inner \<open>try\<close>/\<open>catch\<close>: parse a string body, apply \<open>sanitize\<close>; on a parse
  error keep the raw body.\<close>

definition parsedResponseData :: "(jsval \<Rightarrow> jsval) \<Rightarrow> codec \<Rightarrow> jsval \<Rightarrow> jsval" where
  "parsedResponseData sanitize C responseData =
     (if truthy responseData
      then (case (case responseData of Str s \<Rightarrow> json_parse C s | v \<Rightarrow> Some v) of
              None \<Rightarrow> Obj [(''raw'', responseData)]
            | Some parsed \<Rightarrow> sanitize parsed)
      else Null)"

definition logData ::
  "(jsval \<Rightarrow> jsval) \<Rightarrow> codec \<Rightarrow> request \<Rightarrow> int \<Rightarrow> jsval \<Rightarrow> int \<Rightarrow> string \<Rightarrow> log_row" where
  "logData sanitize C req statusCode responseData processingTime requestId =
     (let requestData =
            Obj [(''nid'', js_or (opt_field (body req) ''nid'') Null),
                 (''dateOfBirth'', js_or (opt_field (body req) ''dateOfBirth'') Null),
                 (''nameEn'', js_or (opt_field (body req) ''nameEn'') Null)]
      in \<lparr>request_id = requestId,
          client_ip = js_or (opt_field (systemInfo req) ''ip'') (Str ''unknown''),
          system_name = js_or (opt_field (systemInfo req) ''systemName'') (Str ''unknown''),
          row_nid = js_or (field requestData ''nid'') (Str ''N/A''),
          request_data = requestData,
          response_data = parsedResponseData sanitize C responseData,
          status = (if statusCode < 400 then ''SUCCESS'' else ''ERROR''),
          error_message =
            (if statusCode \<ge> 400
             then (case responseData of Str s \<Rightarrow> Str s | v \<Rightarrow> json_stringify C v)
             else Null),
          processing_time_ms = processingTime\<rparr>)"

text \<open>What the copy in \<open>src/src/middleware/requestLogger.js\<close> does to the parsed
  response: nothing.\<close>

definition unsanitized :: "jsval \<Rightarrow> jsval" where
  "unsanitized parsed = parsed"

text \<open>
  The sink's state: the rows the database holds, the INSERTs issued and not yet settled,
  the bodies handed to Express's own \<open>send\<close>, and the error lines of the logger.
\<close>

record sink =
  request_logs :: "log_row list"
  in_flight :: "log_row list"
  delivered :: "jsval list"
  error_log :: "string list"

datatype db_outcome = Executed | Failed string

text \<open>
  \<open>logRequestToDatabase\<close> is an async function called without \<open>await\<close>: it runs up to
  \<open>await db.run(...)\<close>, where the INSERT has been issued, and hands control back.
\<close>

definition logRequestToDatabase_issue ::
  "(jsval \<Rightarrow> jsval) \<Rightarrow> codec \<Rightarrow> request \<Rightarrow> int \<Rightarrow> jsval \<Rightarrow> int \<Rightarrow> string \<Rightarrow> sink \<Rightarrow> sink" where
  "logRequestToDatabase_issue sanitize C req statusCode responseData processingTime requestId s =
     s\<lparr>in_flight := in_flight s
          @ [logData sanitize C req statusCode responseData processingTime requestId]\<rparr>"

text \<open>\<open>Database.run\<close> once \<open>pool.execute\<close> settles: the row is stored, or the error is
  logged and rethrown.\<close>

definition db_run :: "db_outcome \<Rightarrow> log_row \<Rightarrow> sink \<Rightarrow> sink \<times> (js_error + unit)" where
  "db_run out row s =
     (case out of
        Executed \<Rightarrow> (s\<lparr>request_logs := request_logs s @ [row], in_flight := remove1 row (in_flight s)\<rparr>,
                     Inr ())
      | Failed m \<Rightarrow> (s\<lparr>in_flight := remove1 row (in_flight s),
                       error_log := error_log s @ [''Database execute error: '' @ m]\<rparr>,
                     Inl (Error m None)))"

text \<open>The rest of \<open>logRequestToDatabase\<close>, run when the INSERT settles: its \<open>catch\<close> block
  logs the error and the promise resolves.\<close>

definition logRequestToDatabase_settle ::
  "db_outcome \<Rightarrow> log_row \<Rightarrow> sink \<Rightarrow> sink \<times> (js_error + unit)" where
  "logRequestToDatabase_settle out row s =
     (case db_run out row s of
        (s1, Inr u) \<Rightarrow> (s1, Inr ())
      | (s1, Inl e) \<Rightarrow>
          (s1\<lparr>error_log := error_log s1 @ [''Failed to log request to database: '' @ message_of e]\<rparr>,
           Inr ()))"

text \<open>The overridden \<open>res.send\<close>: take the time, start the logging, call the original
  \<open>send\<close>.\<close>

definition res_send ::
  "(jsval \<Rightarrow> jsval) \<Rightarrow> codec \<Rightarrow> request \<Rightarrow> int \<Rightarrow> int \<Rightarrow> int \<Rightarrow> string \<Rightarrow> jsval \<Rightarrow> sink \<Rightarrow> sink" where
  "res_send sanitize C req statusCode startTime now requestId d s =
     (let processingTime = now - startTime;
          s1 = logRequestToDatabase_issue sanitize C req statusCode d processingTime requestId s
      in s1\<lparr>delivered := delivered s1 @ [d]\<rparr>)"

subsection \<open>Concrete responses and requests\<close>

text \<open>A response whose person details carry an inlined photo, and one whose person
  details carry an inlined signature.\<close>

definition photo_response :: jsval where
  "photo_response =
     Obj [(''success'', Bool True),
          (''data'', Obj [(''nid'', Str ''12345678901234567''), (''verified'', Bool True),
                          (''personDetails'',
                             Obj [(''name'', Str ''Jane Doe''),
                                  (''photo'', Str ''data:image/jpeg;base64,AAA'')])])]"

definition signature_response :: jsval where
  "signature_response =
     Obj [(''success'', Bool True),
          (''data'', Obj [(''nid'', Str ''12345678901234567''),
                          (''personDetails'',
                             Obj [(''name'', Str ''Jane Doe''),
                                  (''signature'', Str ''data:image/png;base64,iVBORw0KGgo='')])])]"

text \<open>A codec that knows one document and its text.\<close>

definition codec_of :: "string \<Rightarrow> jsval \<Rightarrow> codec" where
  "codec_of text doc =
     \<lparr>json_parse = (\<lambda>s. if s = text then Some doc else None),
      json_stringify = (\<lambda>v. if v = doc then Str text else Undefined)\<rparr>"

text \<open>The request of the end-to-end scenario, from a whitelisted system.\<close>

definition verify_request :: request where
  "verify_request =
     \<lparr>body = Obj [(''nid'', Str ''12345678901234567''), (''dateOfBirth'', Str ''1990-01-01''),
                  (''nameEn'', Str ''Jane Doe'')],
      systemInfo = Obj [(''ip'', Str ''10.0.0.7''), (''systemName'', Str ''Registry Desk'')]\<rparr>"

section \<open>Verification client\<close>

text \<open>The object \<open>verifyNID\<close> returns; \<open>message\<close> is present on the mismatch path only.\<close>

record verification =
  success :: bool
  verified :: jsval
  data :: jsval
  fieldVerificationResult :: jsval
  message :: "string option"

text \<open>The result literal of the 406 paths (lines 113-122 and 172-181), built from the body.\<close>

definition mismatchResult :: "jsval \<Rightarrow> verification" where
  "mismatchResult d =
     \<lparr>success = True,
      verified = js_or (field d ''verified'') (Bool False),
      data = js_or (field d ''data'') (Obj []),
      fieldVerificationResult =
        js_or (field d ''fieldVerificationResult'')
              (Obj [(''nameEn'', Bool False), (''dateOfBirth'', Bool False)]),
      message = Some ''NID found but verification data does not match''\<rparr>"

text \<open>The result literal of the \<open>status === 'OK'\<close> path (lines 138-143).\<close>

definition okResult :: "jsval \<Rightarrow> verification" where
  "okResult d =
     \<lparr>success = True,
      verified = js_or (field d ''verified'') (Bool False),
      data = js_or (opt_field (field d ''success'') ''data'') (Obj []),
      fieldVerificationResult = js_or (field d ''fieldVerificationResult'') (Obj []),
      message = None\<rparr>"

text \<open>\<open>if (result.data.photo) { await this.processPhoto(result.data); } return result;\<close>\<close>

definition withPhoto :: "environment \<Rightarrow> world \<Rightarrow> verification \<Rightarrow> world \<times> verification" where
  "withPhoto E w result =
     (if truthy (field (data result) ''photo'')
      then (case processPhoto E w (data result) of (w1, personData) \<Rightarrow> (w1, result\<lparr>data := personData\<rparr>))
      else (w, result))"

text \<open>
  The 406 path: the first read of the body is \<open>response.data.fieldVerificationResult\<close>
  (in the logger call), which throws on a \<open>null\<close> body.
\<close>

definition mismatch :: "environment \<Rightarrow> world \<Rightarrow> jsval \<Rightarrow> world \<times> (js_error + verification)" where
  "mismatch E w d =
     (case get_prop d ''fieldVerificationResult'' of
        Inl e \<Rightarrow> (w, Inl e)
      | Inr fvr \<Rightarrow> (case withPhoto E w (mismatchResult d) of (w1, result) \<Rightarrow> (w1, Inr result)))"

text \<open>The \<open>try\<close> block of \<open>verifyNID\<close>.\<close>

definition verify_try ::
  "environment \<Rightarrow> world \<Rightarrow> string \<Rightarrow> string \<Rightarrow> string \<Rightarrow> world \<times> (js_error + verification)" where
  "verify_try E w nid dateOfBirth nameEn =
     (case ensureValidToken E w of
        (w1, Inl e) \<Rightarrow> (w1, Inl e)
      | (w1, Inr u) \<Rightarrow>
          let payload = requestPayload nid dateOfBirth nameEn;
              authorization = ''Bearer '' @ to_string (accessToken w1);
              w2 = send E (Verification authorization payload) w1
          in (case axios_result (\<lambda>status. status < 500)
                     (verify_reply E (length (calls w1)) authorization payload) of
                Inl e \<Rightarrow> (w2, Inl e)
              | Inr (st, d) \<Rightarrow>
                  if st = 406 then mismatch E w2 d
                  else (case get_prop d ''status'' of
                          Inl e \<Rightarrow> (w2, Inl e)
                        | Inr s \<Rightarrow>
                            if s = Str ''OK''
                            then (case withPhoto E w2 (okResult d) of (w3, result) \<Rightarrow> (w3, Inr result))
                            else (w2, Inl (Error (''Verification failed: ''
                                    @ to_string (js_or (field d ''statusCode'') (Str ''Unknown error'')))
                                    None)))))"

text \<open>The world right after the verification request has gone out.\<close>

definition sent :: "environment \<Rightarrow> world \<Rightarrow> string \<Rightarrow> string \<Rightarrow> string \<Rightarrow> world" where
  "sent E w nid dateOfBirth nameEn =
     send E (Verification (''Bearer '' @ to_string (accessToken w))
                          (requestPayload nid dateOfBirth nameEn)) w"

subsection \<open>Concrete registries and states\<close>

text \<open>
  An environment whose login endpoint hands out the token \<open>tok\<close>, whose verification
  endpoint answers its \<open>n\<close>-th request overall with \<open>v n\<close>, and whose image host never
  answers; the URL parser knows one address.
\<close>

definition login_body :: jsval where
  "login_body =
     Obj [(''status'', Str ''OK''),
          (''success'', Obj [(''data'', Obj [(''access_token'', Str ''tok'')])])]"

definition env_with :: "(nat \<Rightarrow> outcome) \<Rightarrow> environment" where
  "env_with v =
     \<lparr>login_reply = (\<lambda>n payload. Reply 200 login_body),
      verify_reply = (\<lambda>n authorization payload. v n),
      image_reply = (\<lambda>n url. NoImage ''timeout of 30000ms exceeded''),
      elapsed = (\<lambda>n. 40),
      parse_url = (\<lambda>s. if s = ''https://cdn.example/p.jpg'' then Some (''https:'', ''/p.jpg'')
                        else None),
      base64 = (\<lambda>bytes. []),
      username = Str ''svc'',
      password = Str ''secret''\<rparr>"

text \<open>The service as constructed, and the service holding a token that is good for an hour.\<close>

definition fresh :: world where
  "fresh = \<lparr>accessToken = Null, tokenExpiry = None, clock = 0, calls = []\<rparr>"

definition cached :: world where
  "cached = \<lparr>accessToken = Str ''tok'', tokenExpiry = Some 3600000, clock = 1000, calls = []\<rparr>"

definition person :: jsval where
  "person = Obj [(''name'', Str ''Jane Doe''), (''nationalId'', Str ''12345678901234567'')]"

definition flags :: "bool \<Rightarrow> bool \<Rightarrow> jsval" where
  "flags n d = Obj [(''nameEn'', Bool n), (''dateOfBirth'', Bool d)]"

text \<open>A full match the way section 6 of the specification draws it: everything under
  \<open>success\<close>.\<close>

definition nested_match_body :: jsval where
  "nested_match_body =
     Obj [(''status'', Str ''OK''),
          (''success'', Obj [(''verified'', Bool True), (''data'', person),
                             (''fieldVerificationResult'', flags True True)])]"

text \<open>A full match with \<open>verified\<close> and \<open>fieldVerificationResult\<close> beside \<open>success\<close>.\<close>

definition match_body :: jsval where
  "match_body =
     Obj [(''status'', Str ''OK''), (''verified'', Bool True),
          (''fieldVerificationResult'', flags True True),
          (''success'', Obj [(''data'', person)])]"

definition unauthorized_body :: jsval where
  "unauthorized_body = Obj [(''status'', Str ''UNAUTHORIZED''), (''message'', Str ''Token expired'')]"

text \<open>A registry that rejects the credential once and would accept the next request.\<close>

definition unauthorized_once :: "nat \<Rightarrow> outcome" where
  "unauthorized_once n = (if n = 0 then Reply 401 unauthorized_body else Reply 200 match_body)"

text \<open>A 406 body that claims a verified record all the same.\<close>

definition verified_mismatch_body :: jsval where
  "verified_mismatch_body =
     Obj [(''verified'', Bool True), (''data'', person),
          (''fieldVerificationResult'', flags True False)]"

text \<open>Person details with a photo reference, and a full match carrying them.\<close>

definition photo_person :: jsval where
  "photo_person = Obj [(''name'', Str ''Jane Doe''), (''photo'', Str ''https://cdn.example/p.jpg'')]"

definition photo_match_body :: jsval where
  "photo_match_body =
     Obj [(''status'', Str ''OK''), (''verified'', Bool True),
          (''fieldVerificationResult'', flags True True),
          (''success'', Obj [(''data'', photo_person)])]"

text \<open>
  \<open>verifyNID\<close>: the \<open>try\<close> block, then the \<open>catch\<close> block, which on an error whose
  \<open>response?.status\<close> is 401 clears the credential and calls \<open>verifyNID\<close> again, on 406
  builds the mismatch result from \<open>error.response.data\<close>, and otherwise rethrows under the
  prefix \<open>NID verification failed: \<close>.
\<close>

function verifyNID ::
  "environment \<Rightarrow> world \<Rightarrow> string \<Rightarrow> string \<Rightarrow> string \<Rightarrow> world \<times> (js_error + verification)" where
  "verifyNID E w nid dateOfBirth nameEn =
     (case verify_try E w nid dateOfBirth nameEn of
        (w1, Inr result) \<Rightarrow> (w1, Inr result)
      | (w1, Inl error) \<Rightarrow>
          if response_status error = Some 401
          then verifyNID E (w1\<lparr>accessToken := Null, tokenExpiry := None\<rparr>) nid dateOfBirth nameEn
          else if response_status error = Some 406
          then (case response_of error of
                  Some (st, d) \<Rightarrow> mismatch E w1 d
                | None \<Rightarrow> (w1, Inl (Error (''NID verification failed: '' @ message_of error) None)))
          else (w1, Inl (Error (''NID verification failed: '' @ message_of error) None)))"
  by pat_completeness auto

text \<open>
  Termination. Every error the \<open>try\<close> block can throw either has no \<open>response\<close> (errors of
  \<open>authenticate\<close>, TypeErrors, the \<open>Verification failed\<close> error, a request without reply)
  or carries a status that \<open>validateStatus\<close> rejected, that is 500 or above. So the
  recursive call of the \<open>catch\<close> block is never reached.
\<close>

lemma get_prop_no_response: "get_prop d k = Inl e \<Longrightarrow> response_of e = None"
  by (cases d) auto

lemma authenticate_no_response: "authenticate E w = (w1, Inl e) \<Longrightarrow> response_of e = None"
  by (auto simp: authenticate_def Let_def split: outcome.splits sum.splits prod.splits if_splits)

lemma ensureValidToken_no_response:
  "ensureValidToken E w = (w1, Inl e) \<Longrightarrow> response_of e = None"
  by (auto simp: ensureValidToken_def split: sum.splits prod.splits if_splits
      dest: authenticate_no_response)

lemma axios_result_status:
  "axios_result v out = Inl e \<Longrightarrow> response_of e = Some (st, d) \<Longrightarrow> \<not> v st"
  by (auto simp: axios_result_def split: outcome.splits if_splits)

lemma mismatch_no_response: "mismatch E w d = (w1, Inl e) \<Longrightarrow> response_of e = None"
  by (auto simp: mismatch_def split: sum.splits prod.splits dest: get_prop_no_response)

lemma verify_try_status:
  "verify_try E w nid dob nm = (w1, Inl e) \<Longrightarrow> response_status e = Some st \<Longrightarrow> 500 \<le> st"
  by (auto simp: verify_try_def response_status_def Let_def
      split: sum.splits prod.splits if_splits
      dest: get_prop_no_response ensureValidToken_no_response mismatch_no_response
        axios_result_status)

termination verifyNID
  by (relation "{}") (auto dest: verify_try_status [OF sym])

text \<open>Since neither 401 nor 406 reaches the \<open>catch\<close> block, \<open>verifyNID\<close> is its \<open>try\<close>
  block with every error rethrown under the prefix.\<close>

lemma verifyNID_unfold:
  "verifyNID E w nid dob nm =
     (case verify_try E w nid dob nm of
        (w1, Inr result) \<Rightarrow> (w1, Inr result)
      | (w1, Inl error) \<Rightarrow> (w1, Inl (Error (''NID verification failed: '' @ message_of error) None)))"
proof (cases "verify_try E w nid dob nm")
  case (Pair w1 r)
  show ?thesis
  proof (cases r)
    case (Inl error)
    have "response_status error \<noteq> Some 401" "response_status error \<noteq> Some 406"
      using verify_try_status [of E w nid dob nm w1 error] Pair Inl by fastforce+
    then show ?thesis using Pair Inl by simp
  next
    case (Inr result)
    then show ?thesis using Pair by simp
  qed
qed

declare verifyNID.simps [simp del]

section \<open>Facts about the verification client\<close>

lemmas example_defs =
  env_with_def fresh_def cached_def login_body_def nested_match_body_def match_body_def
  unauthorized_body_def unauthorized_once_def person_def flags_def verified_mismatch_body_def
  photo_person_def photo_match_body_def

lemmas client_defs =
  verifyNID_unfold verify_try_def ensureValidToken_def authenticate_def axios_result_def
  send_def sent_def requestPayload_def nidType_def okResult_def mismatchResult_def withPhoto_def
  mismatch_def processPhoto_def isValidImageUrl_def fetchImageAsBase64_def js_or_def Let_def

lemma get_prop_Inr: "d \<noteq> Null \<Longrightarrow> d \<noteq> Undefined \<Longrightarrow> get_prop d k = Inr (field d k)"
  by (cases d) auto

lemma get_prop_status_OK:
  "field d ''status'' = Str ''OK'' \<Longrightarrow> get_prop d ''status'' = Inr (Str ''OK'')"
  by (cases d) auto

lemma verify_try_reply:
  assumes "ensureValidToken E w = (w1, Inr ())"
    and "verify_reply E (length (calls w1)) (''Bearer '' @ to_string (accessToken w1))
           (requestPayload nid dob nm) = Reply st d"
    and "st < 500"
  shows "verify_try E w nid dob nm =
     (if st = 406 then mismatch E (sent E w1 nid dob nm) d
      else (case get_prop d ''status'' of
              Inl e \<Rightarrow> (sent E w1 nid dob nm, Inl e)
            | Inr s \<Rightarrow>
                if s = Str ''OK''
                then (case withPhoto E (sent E w1 nid dob nm) (okResult d) of
                        (w3, result) \<Rightarrow> (w3, Inr result))
                else (sent E w1 nid dob nm, Inl (Error (''Verification failed: ''
                        @ to_string (js_or (field d ''statusCode'') (Str ''Unknown error'')))
                        None))))"
  unfolding verify_try_def sent_def Let_def using assms by (simp add: axios_result_def)

lemma field_set_field_other: "k \<noteq> k' \<Longrightarrow> field (set_field pd k' v) k = field pd k"
  by (cases pd) (auto simp: update_conv')

lemma processPhoto_other_fields:
  "k \<noteq> ''photo'' \<Longrightarrow> field (snd (processPhoto E w pd)) k = field pd k"
  by (auto simp: processPhoto_def field_set_field_other split: prod.splits sum.splits)

lemma processPhoto_failure:
  "\<not> isValidImageUrl E (field pd ''photo'')
     \<or> (\<exists>e. snd (fetchImageAsBase64 E w (field pd ''photo'')) = Inl e)
   \<Longrightarrow> snd (processPhoto E w pd) = pd"
  by (auto simp: processPhoto_def split: prod.splits sum.splits)

lemma withPhoto_fields:
  "snd (withPhoto E w r) = r\<lparr>data := data (snd (withPhoto E w r))\<rparr>"
  by (auto simp: withPhoto_def split: prod.splits)

lemma withPhoto_other_fields:
  "k \<noteq> ''photo'' \<Longrightarrow> field (data (snd (withPhoto E w r))) k = field (data r) k"
  using processPhoto_other_fields [of k E w "data r"]
  by (auto simp: withPhoto_def split: prod.splits)

lemma withPhoto_no_photo:
  "\<not> truthy (field (data r) ''photo'') \<Longrightarrow> withPhoto E w r = (w, r)"
  by (simp add: withPhoto_def)

section \<open>Properties of the verification client\<close>

text \<open>
  C4, as stated, fails: an identifier of five digits is not refused by the client; it goes
  out on the 10-digit channel.
\<close>

theorem nidType_short_identifier_counterexample:
  "length ''12345'' \<noteq> 10 \<and>
   field (requestPayload ''12345'' ''1990-01-01'' ''Jane Doe'') ''identify''
     = Obj [(''nid10Digit'', Str ''12345'')]"
  by (simp add: requestPayload_def nidType_def)

text \<open>
  C4, amended: the channel is \<open>nid17Digit\<close> exactly when the identifier has 17
  characters and \<open>nid10Digit\<close> for every other length (so also for length 10), and the
  outbound payload identifies the subject under that one key.
\<close>

theorem nidType_by_length:
  "(nidType nid = ''nid17Digit'' \<longleftrightarrow> length nid = 17)
   \<and> (nidType nid = ''nid10Digit'' \<longleftrightarrow> length nid \<noteq> 17)
   \<and> field (requestPayload nid dateOfBirth nameEn) ''identify'' = Obj [(nidType nid, Str nid)]"
  by (simp add: requestPayload_def nidType_def)

text \<open>
  C7: when a truthy access token is cached and its expiry lies strictly after the current
  time, \<open>ensureValidToken\<close> returns without error and leaves the whole state as it was:
  no request is sent, token and expiry are unchanged.
\<close>

theorem ensureValidToken_cached:
  assumes "truthy (accessToken w)" and "tokenExpiry w = Some expiry" and "clock w < expiry"
  shows "ensureValidToken E w = (w, Inr ())"
  using assms by (simp add: ensureValidToken_def)

theorem ensureValidToken_cached_witness:
  "truthy (accessToken cached) \<and> tokenExpiry cached = Some 3600000 \<and> clock cached < 3600000
   \<and> ensureValidToken (env_with unauthorized_once) cached = (cached, Inr ())"
  using ensureValidToken_cached [of cached 3600000 "env_with unauthorized_once"]
  by (simp add: cached_def)

text \<open>
  C1, evaluated: the registry rejects the credential once (HTTP 401) and would accept the
  next request. \<open>verifyNID\<close> sends a single verification request, keeps the rejected
  token cached and throws \<open>NID verification failed: Verification failed: Unknown error\<close>:
  \<open>validateStatus\<close> lets the 401 through as an ordinary response, so the re-authentication
  branch of the \<open>catch\<close> block is not reached.
\<close>

theorem verifyNID_unauthorized_not_retried:
  "verifyNID (env_with unauthorized_once) cached ''12345678901234567'' ''1990-01-01'' ''Jane Doe''
   = (cached\<lparr>clock := 1040,
              calls := [Verification ''Bearer tok''
                          (requestPayload ''12345678901234567'' ''1990-01-01'' ''Jane Doe'')]\<rparr>,
      Inl (Error ''NID verification failed: Verification failed: Unknown error'' None))"
  by (simp add: client_defs example_defs)

text \<open>
  C2, as stated, fails: for the input of the scenario and a body with \<open>verified\<close> and
  \<open>fieldVerificationResult\<close> nested under \<open>success\<close>, the call returns \<open>verified = false\<close>
  and no field flags; only the person details are read from under \<open>success\<close>.
\<close>

theorem verifyNID_nested_match_counterexample:
  "snd (verifyNID (env_with (\<lambda>n. Reply 200 nested_match_body)) fresh
          ''12345678901234567'' ''1990-01-01'' ''Jane Doe'')
   = Inr \<lparr>success = True, verified = Bool False, data = person,
          fieldVerificationResult = Obj [], message = None\<rparr>"
  by (simp add: client_defs example_defs)

text \<open>
  C2, amended: when the registry answers HTTP 200 with \<open>status = "OK"\<close>, with
  \<open>verified = true\<close> and both field flags true at the top level of the body and the
  person details under \<open>success.data\<close>, the call returns \<open>verified = true\<close>, the two flags
  true, no advisory message and the person details as supplied (the photo field apart,
  which the asset inliner may replace).
\<close>

theorem verifyNID_full_match:
  assumes tok: "ensureValidToken E w = (w1, Inr ())"
    and reply: "verify_reply E (length (calls w1)) (''Bearer '' @ to_string (accessToken w1))
           (requestPayload nid dateOfBirth nameEn) = Reply 200 d"
    and status: "field d ''status'' = Str ''OK''"
    and verified: "field d ''verified'' = Bool True"
    and fvr: "field d ''fieldVerificationResult'' = flags True True"
    and details: "opt_field (field d ''success'') ''data'' = details" "truthy details"
  shows "\<exists>w3 r. verifyNID E w nid dateOfBirth nameEn = (w3, Inr r)
           \<and> success r \<and> verified r = Bool True
           \<and> fieldVerificationResult r = flags True True
           \<and> message r = None
           \<and> (\<forall>k. k \<noteq> ''photo'' \<longrightarrow> field (data r) k = field details k)
           \<and> (\<not> truthy (field details ''photo'') \<longrightarrow> data r = details)"
proof -
  let ?w2 = "sent E w1 nid dateOfBirth nameEn"
  obtain w3 r where wp: "withPhoto E ?w2 (okResult d) = (w3, r)"
    by (cases "withPhoto E ?w2 (okResult d)")
  have run: "verifyNID E w nid dateOfBirth nameEn = (w3, Inr r)"
    using verify_try_reply [OF tok reply] status wp
    by (simp add: verifyNID_unfold get_prop_status_OK)
  have ok: "okResult d = \<lparr>success = True, verified = Bool True, data = details,
                          fieldVerificationResult = flags True True, message = None\<rparr>"
    using verified fvr details by (simp add: okResult_def js_or_def flags_def)
  have r: "r = (okResult d)\<lparr>data := data r\<rparr>"
    using withPhoto_fields [of E ?w2 "okResult d"] wp by simp
  have other: "\<forall>k. k \<noteq> ''photo'' \<longrightarrow> field (data r) k = field details k"
    using withPhoto_other_fields [of _ E ?w2 "okResult d"] wp ok by simp
  have none: "\<not> truthy (field details ''photo'') \<longrightarrow> data r = details"
    using withPhoto_no_photo [of "okResult d" E ?w2] wp ok by auto
  have "success r \<and> verified r = Bool True \<and> fieldVerificationResult r = flags True True
        \<and> message r = None"
    using r ok by (metis (no_types) select_convs surjective update_convs(3))
  with run other none show ?thesis by blast
qed

theorem verifyNID_full_match_witness:
  "\<exists>w3 r. verifyNID (env_with (\<lambda>n. Reply 200 match_body)) cached
              ''12345678901234567'' ''1990-01-01'' ''Jane Doe'' = (w3, Inr r)
     \<and> success r \<and> verified r = Bool True \<and> fieldVerificationResult r = flags True True
     \<and> message r = None \<and> data r = person"
proof -
  let ?E = "env_with (\<lambda>n. Reply 200 match_body)"
  have tok: "ensureValidToken ?E cached = (cached, Inr ())"
    by (simp add: ensureValidToken_def cached_def)
  have reply: "verify_reply ?E (length (calls cached)) (''Bearer '' @ to_string (accessToken cached))
           (requestPayload ''12345678901234567'' ''1990-01-01'' ''Jane Doe'') = Reply 200 match_body"
    by (simp add: env_with_def)
  have a: "field match_body ''status'' = Str ''OK''" "field match_body ''verified'' = Bool True"
    "field match_body ''fieldVerificationResult'' = flags True True"
    "opt_field (field match_body ''success'') ''data'' = person" "truthy person"
    "\<not> truthy (field person ''photo'')"
    by (simp_all add: match_body_def person_def)
  show ?thesis
    using verifyNID_full_match [OF tok reply a(1) a(2) a(3) a(4) a(5)] a(6) by auto
qed


text \<open>
  C5, as stated, fails: \<open>verified\<close> is not forced to \<open>false\<close> on HTTP 406. A 406 body that
  carries \<open>verified: true\<close> comes back with \<open>verified = true\<close>.
\<close>

theorem verifyNID_mismatch_verified_counterexample:
  "snd (verifyNID (env_with (\<lambda>n. Reply 406 verified_mismatch_body)) cached
          ''1234567890'' ''1990-01-01'' ''Jane Doe'')
   = Inr \<lparr>success = True, verified = Bool True, data = person,
          fieldVerificationResult = flags True False,
          message = Some ''NID found but verification data does not match''\<rparr>"
  by (simp add: client_defs example_defs)

text \<open>
  C5, amended: for every HTTP 406 response with a body other than \<open>null\<close>, the call
  returns a result and no error, with \<open>success = true\<close>; \<open>verified\<close> is the body's flag, and
  \<open>false\<close> when the body has none or a falsy one; the field flags are the body's
  \<open>fieldVerificationResult\<close>, and \<open>{nameEn: false, dateOfBirth: false}\<close> when that is absent
  or falsy; the advisory message is attached; the person details are the body's \<open>data\<close>
  (an empty object when absent), the photo field apart.
\<close>

theorem verifyNID_mismatch:
  assumes tok: "ensureValidToken E w = (w1, Inr ())"
    and reply: "verify_reply E (length (calls w1)) (''Bearer '' @ to_string (accessToken w1))
           (requestPayload nid dateOfBirth nameEn) = Reply 406 d"
    and body: "d \<noteq> Null" "d \<noteq> Undefined"
  shows "\<exists>w3 r. verifyNID E w nid dateOfBirth nameEn = (w3, Inr r)
           \<and> success r
           \<and> verified r = js_or (field d ''verified'') (Bool False)
           \<and> (\<not> truthy (field d ''verified'') \<longrightarrow> verified r = Bool False)
           \<and> fieldVerificationResult r
               = js_or (field d ''fieldVerificationResult'') (flags False False)
           \<and> (\<not> truthy (field d ''fieldVerificationResult'')
                \<longrightarrow> fieldVerificationResult r = flags False False)
           \<and> message r = Some ''NID found but verification data does not match''
           \<and> (\<forall>k. k \<noteq> ''photo'' \<longrightarrow> field (data r) k = field (js_or (field d ''data'') (Obj [])) k)
           \<and> (\<not> truthy (field (field d ''data'') ''photo'')
                \<longrightarrow> data r = js_or (field d ''data'') (Obj []))"
proof -
  let ?w2 = "sent E w1 nid dateOfBirth nameEn"
  let ?m = "mismatchResult d"
  obtain w3 r where wp: "withPhoto E ?w2 ?m = (w3, r)"
    by (cases "withPhoto E ?w2 ?m")
  have run: "verifyNID E w nid dateOfBirth nameEn = (w3, Inr r)"
    using verify_try_reply [OF tok reply] body wp
    by (simp add: verifyNID_unfold mismatch_def get_prop_Inr)
  have r: "r = ?m\<lparr>data := data r\<rparr>"
    using withPhoto_fields [of E ?w2 ?m] wp by simp
  have m: "success ?m" "verified ?m = js_or (field d ''verified'') (Bool False)"
    "fieldVerificationResult ?m = js_or (field d ''fieldVerificationResult'') (flags False False)"
    "message ?m = Some ''NID found but verification data does not match''"
    "data ?m = js_or (field d ''data'') (Obj [])"
    by (simp_all add: mismatchResult_def flags_def)
  have same: "success r = success ?m" "verified r = verified ?m"
    "fieldVerificationResult r = fieldVerificationResult ?m" "message r = message ?m"
    by (subst r, simp)+
  have other: "\<forall>k. k \<noteq> ''photo'' \<longrightarrow> field (data r) k = field (js_or (field d ''data'') (Obj [])) k"
    using withPhoto_other_fields [of _ E ?w2 ?m] wp m(5) by simp
  have "\<not> truthy (field (field d ''data'') ''photo'') \<Longrightarrow> \<not> truthy (field (data ?m) ''photo'')"
    unfolding m(5) by (simp add: js_or_def)
  then have none: "\<not> truthy (field (field d ''data'') ''photo'')
                \<longrightarrow> data r = js_or (field d ''data'') (Obj [])"
    using withPhoto_no_photo [of ?m E ?w2] wp m(5) by auto
  show ?thesis
    using run same m(1-4) other none by (auto simp: js_or_def)
qed

theorem verifyNID_mismatch_witness:
  "\<exists>w3 r. verifyNID (env_with (\<lambda>n. Reply 406 (Obj [(''data'', person)]))) cached
              ''1234567890'' ''1990-01-01'' ''Jane Doe'' = (w3, Inr r)
     \<and> success r \<and> verified r = Bool False \<and> fieldVerificationResult r = flags False False
     \<and> message r = Some ''NID found but verification data does not match''
     \<and> data r = person"
proof -
  let ?d = "Obj [(''data'', person)]"
  let ?E = "env_with (\<lambda>n. Reply 406 ?d)"
  have tok: "ensureValidToken ?E cached = (cached, Inr ())"
    by (simp add: ensureValidToken_def cached_def)
  have reply: "verify_reply ?E (length (calls cached)) (''Bearer '' @ to_string (accessToken cached))
           (requestPayload ''1234567890'' ''1990-01-01'' ''Jane Doe'') = Reply 406 ?d"
    by (simp add: env_with_def)
  have a: "?d \<noteq> Null" "?d \<noteq> Undefined" "\<not> truthy (field ?d ''verified'')"
    "\<not> truthy (field ?d ''fieldVerificationResult'')"
    "\<not> truthy (field (field ?d ''data'') ''photo'')" "js_or (field ?d ''data'') (Obj []) = person"
    by (simp_all add: person_def js_or_def)
  show ?thesis
    using verifyNID_mismatch [OF tok reply a(1) a(2)] a(3-6) by auto
qed

text \<open>
  C8: the registry answered with a match (\<open>status = "OK"\<close>) or a mismatch (HTTP 406), the
  person details of the result \<open>r0\<close> built from the body hold a photo reference, and
  inlining fails: the reference does not parse as a URL, or its protocol is neither http
  nor https, or its path has no recognised image extension, or the image request gets no
  reply (connection error, timeout), or it gets a status outside 200 to 299. Then
  \<open>verifyNID\<close> returns exactly \<open>r0\<close>: no error, \<open>verified\<close> as the body gave it, the photo
  reference untouched.
\<close>

theorem inlining_failure_non_fatal:
  assumes tok: "ensureValidToken E w = (w1, Inr ())"
    and reply: "verify_reply E (length (calls w1)) (''Bearer '' @ to_string (accessToken w1))
           (requestPayload nid dateOfBirth nameEn) = Reply st d"
    and st: "st < 500"
    and cls: "(st = 406 \<and> d \<noteq> Null \<and> d \<noteq> Undefined \<and> r0 = mismatchResult d)
            \<or> (st \<noteq> 406 \<and> field d ''status'' = Str ''OK'' \<and> r0 = okResult d)"
    and photo: "photo = field (data r0) ''photo''" "truthy photo"
    and fails:
      "parse_url E (to_string photo) = None
       \<or> (\<exists>protocol pathname. parse_url E (to_string photo) = Some (protocol, pathname)
             \<and> protocol \<noteq> ''http:'' \<and> protocol \<noteq> ''https:'')
       \<or> (\<exists>protocol pathname. parse_url E (to_string photo) = Some (protocol, pathname)
             \<and> \<not> list_ex (\<lambda>ext. includes_str (toLowerCase pathname) ext) validExtensions)
       \<or> (\<exists>m. image_reply E (Suc (length (calls w1))) photo = NoImage m)
       \<or> (\<exists>status contentType bytes.
             image_reply E (Suc (length (calls w1))) photo = Image status contentType bytes
             \<and> (status < 200 \<or> 300 \<le> status))"
  shows "\<exists>w3. verifyNID E w nid dateOfBirth nameEn = (w3, Inr r0)"
proof -
  let ?w2 = "sent E w1 nid dateOfBirth nameEn"
  have len: "length (calls ?w2) = Suc (length (calls w1))"
    by (simp add: sent_def send_def)
  have "\<not> isValidImageUrl E photo \<or> (\<exists>e. snd (fetchImageAsBase64 E ?w2 photo) = Inl e)"
    using fails
  proof (elim disjE exE conjE)
    assume "parse_url E (to_string photo) = None"
    then show ?thesis by (simp add: isValidImageUrl_def)
  next
    fix protocol pathname
    assume "parse_url E (to_string photo) = Some (protocol, pathname)"
      "protocol \<noteq> ''http:''" "protocol \<noteq> ''https:''"
    then show ?thesis by (simp add: isValidImageUrl_def validProtocols_def)
  next
    fix protocol pathname
    assume "parse_url E (to_string photo) = Some (protocol, pathname)"
      "\<not> list_ex (\<lambda>ext. includes_str (toLowerCase pathname) ext) validExtensions"
    then show ?thesis by (simp add: isValidImageUrl_def)
  next
    fix m assume "image_reply E (Suc (length (calls w1))) photo = NoImage m"
    then show ?thesis by (simp add: fetchImageAsBase64_def len Let_def)
  next
    fix code contentType bytes
    assume "image_reply E (Suc (length (calls w1))) photo = Image code contentType bytes"
      "code < 200"
    then show ?thesis by (simp add: fetchImageAsBase64_def len Let_def)
  next
    fix code contentType bytes
    assume "image_reply E (Suc (length (calls w1))) photo = Image code contentType bytes"
      "300 \<le> code"
    then show ?thesis by (simp add: fetchImageAsBase64_def len Let_def)
  qed
  then have "\<not> isValidImageUrl E (field (data r0) ''photo'')
      \<or> (\<exists>e. snd (fetchImageAsBase64 E ?w2 (field (data r0) ''photo'')) = Inl e)"
    by (simp only: photo(1))
  then have pp: "snd (processPhoto E ?w2 (data r0)) = data r0"
    by (rule processPhoto_failure)
  have wp: "snd (withPhoto E ?w2 r0) = r0"
    using pp photo by (auto simp: withPhoto_def split: prod.splits)
  from cls show ?thesis
  proof
    assume a: "st = 406 \<and> d \<noteq> Null \<and> d \<noteq> Undefined \<and> r0 = mismatchResult d"
    then have "verify_try E w nid dateOfBirth nameEn = mismatch E ?w2 d"
      using verify_try_reply [OF tok reply st] by simp
    then show ?thesis using a wp
      by (auto simp: verifyNID_unfold mismatch_def get_prop_Inr split: prod.splits)
  next
    assume a: "st \<noteq> 406 \<and> field d ''status'' = Str ''OK'' \<and> r0 = okResult d"
    then have "verify_try E w nid dateOfBirth nameEn =
       (case withPhoto E ?w2 (okResult d) of (w3, result) \<Rightarrow> (w3, Inr result))"
      using verify_try_reply [OF tok reply st] by (simp add: get_prop_status_OK)
    then show ?thesis using a wp
      by (auto simp: verifyNID_unfold split: prod.splits)
  qed
qed

theorem inlining_failure_non_fatal_witness:
  "\<exists>w3. verifyNID (env_with (\<lambda>n. Reply 200 photo_match_body)) cached
            ''12345678901234567'' ''1990-01-01'' ''Jane Doe''
     = (w3, Inr \<lparr>success = True, verified = Bool True, data = photo_person,
                 fieldVerificationResult = flags True True, message = None\<rparr>)"
proof -
  let ?E = "env_with (\<lambda>n. Reply 200 photo_match_body)"
  let ?r0 = "okResult photo_match_body"
  let ?photo = "Str ''https://cdn.example/p.jpg''"
  have tok: "ensureValidToken ?E cached = (cached, Inr ())"
    by (simp add: ensureValidToken_def cached_def)
  have reply: "verify_reply ?E (length (calls cached)) (''Bearer '' @ to_string (accessToken cached))
           (requestPayload ''12345678901234567'' ''1990-01-01'' ''Jane Doe'') = Reply 200 photo_match_body"
    by (simp add: env_with_def)
  have st: "(200::int) < 500" by simp
  have r0: "?r0 = \<lparr>success = True, verified = Bool True, data = photo_person,
                 fieldVerificationResult = flags True True, message = None\<rparr>"
    by (simp add: okResult_def photo_match_body_def js_or_def photo_person_def flags_def)
  have cls: "((200::int) = 406 \<and> photo_match_body \<noteq> Null \<and> photo_match_body \<noteq> Undefined
               \<and> ?r0 = mismatchResult photo_match_body)
            \<or> ((200::int) \<noteq> 406 \<and> field photo_match_body ''status'' = Str ''OK'' \<and> ?r0 = ?r0)"
    by (simp add: photo_match_body_def)
  have photo: "?photo = field (data ?r0) ''photo''" "truthy ?photo"
    by (simp_all add: r0 photo_person_def)
  have fails:
      "parse_url ?E (to_string ?photo) = None
       \<or> (\<exists>protocol pathname. parse_url ?E (to_string ?photo) = Some (protocol, pathname)
             \<and> protocol \<noteq> ''http:'' \<and> protocol \<noteq> ''https:'')
       \<or> (\<exists>protocol pathname. parse_url ?E (to_string ?photo) = Some (protocol, pathname)
             \<and> \<not> list_ex (\<lambda>ext. includes_str (toLowerCase pathname) ext) validExtensions)
       \<or> (\<exists>m. image_reply ?E (Suc (length (calls cached))) ?photo = NoImage m)
       \<or> (\<exists>status contentType bytes.
             image_reply ?E (Suc (length (calls cached))) ?photo = Image status contentType bytes
             \<and> (status < 200 \<or> 300 \<le> status))"
    by (simp add: env_with_def)
  show ?thesis
    using inlining_failure_non_fatal [OF tok reply st cls photo fails] r0 by simp
qed


section \<open>Facts about the sanitizer\<close>

lemma is_json_copy: "is_json v \<Longrightarrow> json_copy v = v"
proof (induction v)
  case (Arr xs)
  then have "map (\<lambda>x. if x = Undefined then Null else json_copy x) xs = xs"
    by (intro map_idI) (auto simp: list_all_iff)
  then show ?case by simp
next
  case (Obj kvs)
  have f: "filter (\<lambda>kv. snd kv \<noteq> Undefined) kvs = kvs"
    using Obj.prems by (intro filter_True) (auto simp: list_all_iff)
  have "map (\<lambda>kv. (fst kv, json_copy (snd kv))) kvs = kvs"
  proof (intro map_idI)
    fix kv assume kv: "kv \<in> set kvs"
    then have "is_json (snd kv)" using Obj.prems by (auto simp: list_all_iff)
    moreover have "snd kv \<in> Basic_BNFs.snds kv" by (cases kv) simp
    ultimately have "json_copy (snd kv) = snd kv" using Obj.IH kv by blast
    then show "(fst kv, json_copy (snd kv)) = kv" by simp
  qed
  with f show ?case by simp
qed simp_all

lemma truthy_field_Obj: "truthy (field x k) \<Longrightarrow> \<exists>kvs. x = Obj kvs"
  by (cases x) auto

lemma truthy_field_truthy: "truthy (field x k) \<Longrightarrow> truthy x"
  by (cases x) auto

lemma field_set_field: "field (set_field (Obj kvs) k v) k' = (if k' = k then v else field (Obj kvs) k')"
  by (simp add: update_conv')

lemma data_field_redact_large:
  "field (field (redact_large x g) ''data'') f =
     (if g = f \<and> (\<exists>s. field (field x ''data'') f = Str s \<and> startsWith s ''data:'')
      then Str (''['' @ toUpperCase f @ ''_DATA_REMOVED_FOR_STORAGE]'')
      else field (field x ''data'') f)"
proof (cases "truthy (field x ''data'') \<and> truthy (field (field x ''data'') g)
            \<and> (case field (field x ''data'') g of Str s \<Rightarrow> startsWith s ''data:'' | _ \<Rightarrow> False)")
  case True
  then obtain kvs kvs' where x: "x = Obj kvs" and d: "field x ''data'' = Obj kvs'"
    using truthy_field_Obj by blast
  from True obtain s where s: "field (Obj kvs') g = Str s" "startsWith s ''data:''"
    unfolding d by (auto split: jsval.splits)
  have "redact_large x g = set_field (Obj kvs) ''data''
          (set_field (Obj kvs') g (Str (''['' @ toUpperCase g @ ''_DATA_REMOVED_FOR_STORAGE]'')))"
    using True d unfolding redact_large_def Let_def x by simp
  then show ?thesis
    using s d unfolding x by (auto simp: update_conv')
next
  case False
  then have r: "redact_large x g = x" by (auto simp: redact_large_def Let_def)
  have "\<not> (g = f \<and> (\<exists>s. field (field x ''data'') f = Str s \<and> startsWith s ''data:''))"
  proof
    assume a: "g = f \<and> (\<exists>s. field (field x ''data'') f = Str s \<and> startsWith s ''data:'')"
    then obtain s where s: "field (field x ''data'') g = Str s" "startsWith s ''data:''" by blast
    then have "s \<noteq> []" by (cases s) auto
    then have "truthy (field (field x ''data'') g)" using s by simp
    moreover then have "truthy (field x ''data'')" by (rule truthy_field_truthy)
    ultimately show False using False s by simp
  qed
  then show ?thesis by (simp only: r if_False)
qed

lemma data_field_redact_photo:
  "field (field (redact_photo x) ''data'') f =
     (if f = ''photo'' \<and> truthy (field (field x ''data'') ''photo'')
      then Str ''[PHOTO_DATA_REMOVED_FOR_STORAGE]''
      else field (field x ''data'') f)"
proof (cases "truthy (field x ''data'') \<and> truthy (field (field x ''data'') ''photo'')")
  case True
  then obtain kvs kvs' where x: "x = Obj kvs" and d: "field x ''data'' = Obj kvs'"
    using truthy_field_Obj by blast
  have "redact_photo x = set_field (Obj kvs) ''data''
          (set_field (Obj kvs') ''photo'' (Str ''[PHOTO_DATA_REMOVED_FOR_STORAGE]''))"
    using True d unfolding redact_photo_def Let_def x by simp
  then show ?thesis
    using True d unfolding x by (auto simp: update_conv')
next
  case False
  then have r: "redact_photo x = x" by (auto simp: redact_photo_def Let_def)
  have "truthy (field (field x ''data'') ''photo'') \<Longrightarrow> truthy (field x ''data'')"
    by (rule truthy_field_truthy)
  then show ?thesis using r False by auto
qed

lemma data_field_redact_personDetails:
  "field (field (redact_personDetails x) ''data'') f =
     (if f = ''personDetails'' \<and> truthy (field (field (field x ''data'') ''personDetails'') ''photo'')
      then set_field (field (field x ''data'') ''personDetails'') ''photo''
             (Str ''[PHOTO_DATA_REMOVED_FOR_STORAGE]'')
      else field (field x ''data'') f)"
proof (cases "truthy (field x ''data'') \<and> truthy (field (field x ''data'') ''personDetails'')
     \<and> truthy (field (field (field x ''data'') ''personDetails'') ''photo'')")
  case True
  then obtain kvs kvs' where x: "x = Obj kvs" and d: "field x ''data'' = Obj kvs'"
    using truthy_field_Obj by blast
  have "redact_personDetails x = set_field (Obj kvs) ''data''
          (set_field (Obj kvs') ''personDetails''
             (set_field (field (Obj kvs') ''personDetails'') ''photo''
                (Str ''[PHOTO_DATA_REMOVED_FOR_STORAGE]'')))"
    using True d unfolding redact_personDetails_def Let_def x by simp
  then show ?thesis
    using True d unfolding x by (auto simp: update_conv')
next
  case False
  then have r: "redact_personDetails x = x" by (auto simp: redact_personDetails_def Let_def)
  have "truthy (field (field (field x ''data'') ''personDetails'') ''photo'')
        \<Longrightarrow> truthy (field (field x ''data'') ''personDetails'') \<and> truthy (field x ''data'')"
    by (blast dest: truthy_field_truthy)
  then show ?thesis using r False by auto
qed

lemma data_field_sanitized:
  assumes "is_json resp"
  shows "field (field (sanitizeResponseData resp) ''data'') f =
     field (field (foldl redact_large (redact_photo (redact_personDetails resp)) largeFields) ''data'') f"
proof (cases "truthy resp \<and> is_object resp")
  case True
  then show ?thesis using assms by (simp add: sanitizeResponseData_def is_json_copy)
next
  case False
  then have "\<not> (\<exists>kvs. resp = Obj kvs)" by auto
  then have "redact_personDetails resp = resp" "redact_photo resp = resp"
    "\<And>g. redact_large resp g = resp"
    using truthy_field_Obj
    by (auto simp: redact_personDetails_def redact_photo_def redact_large_def Let_def)
  then show ?thesis using False by (simp add: sanitizeResponseData_def largeFields_def)
qed

lemma stored_response:
  "text \<noteq> [] \<Longrightarrow> json_parse C text = Some resp \<Longrightarrow>
   response_data (logData sanitize C req statusCode (Str text) processingTime requestId)
     = sanitize resp"
  by (simp add: logData_def parsedResponseData_def Let_def)

lemma data_field_foldl_other:
  "f \<notin> set gs \<Longrightarrow>
   field (field (foldl redact_large x gs) ''data'') f = field (field x ''data'') f"
proof (induction gs arbitrary: x)
  case Nil
  then show ?case by simp
next
  case (Cons g gs)
  then have "field (field (foldl redact_large (redact_large x g) gs) ''data'') f
               = field (field (redact_large x g) ''data'') f"
    by simp
  also have "\<dots> = field (field x ''data'') f"
    using Cons.prems by (auto simp: data_field_redact_large)
  finally show ?case by simp
qed

lemma data_field_foldl_member:
  "distinct gs \<Longrightarrow> f \<in> set gs \<Longrightarrow>
   field (field (foldl redact_large x gs) ''data'') f =
     (if \<exists>s. field (field x ''data'') f = Str s \<and> startsWith s ''data:''
      then Str (''['' @ toUpperCase f @ ''_DATA_REMOVED_FOR_STORAGE]'')
      else field (field x ''data'') f)"
proof (induction gs arbitrary: x)
  case Nil
  then show ?case by simp
next
  case (Cons g gs)
  show ?case
  proof (cases "g = f")
    case True
    then have "f \<notin> set gs" using Cons.prems by simp
    then have "field (field (foldl redact_large (redact_large x g) gs) ''data'') f
                 = field (field (redact_large x g) ''data'') f"
      by (rule data_field_foldl_other)
    then show ?thesis using True by (simp only: foldl_Cons data_field_redact_large) simp
  next
    case False
    then have m: "f \<in> set gs" and d: "distinct gs" using Cons.prems by auto
    have same: "field (field (redact_large x g) ''data'') f = field (field x ''data'') f"
      using False by (simp add: data_field_redact_large)
    show ?thesis
      using Cons.IH [OF d m, of "redact_large x g"] by (simp only: foldl_Cons same)
  qed
qed

lemmas data_field_redact =
  data_field_redact_large data_field_redact_photo data_field_redact_personDetails

section \<open>Properties of the audit sink\<close>

text \<open>
  C3, amended: in the response document that the logger copy of \<open>src/unnamed/part_001\<close>
  (the copy that calls \<open>sanitizeResponseData\<close>) stores for a JSON response, the field
  \<open>data.personDetails.photo\<close> and the field \<open>data.photo\<close>, whenever truthy, hold the marker
  \<open>[PHOTO_DATA_REMOVED_FOR_STORAGE]\<close>, and each of \<open>data.image\<close>, \<open>data.picture\<close>,
  \<open>data.avatar\<close>, \<open>data.signature\<close> that was a string beginning with \<open>data:\<close> holds the
  marker naming the field. In particular a response with \<open>data.personDetails.photo\<close> as a
  data URL is stored by that copy with the literal marker there. Nothing is said about
  other places or depths, nor about the copy in \<open>src/src/middleware/requestLogger.js\<close>.
\<close>

theorem audit_record_redaction:
  assumes parse: "text \<noteq> []" "json_parse C text = Some resp"
    and json: "is_json resp"
    and stored: "stored = response_data
                      (logData sanitizeResponseData C req statusCode (Str text) processingTime requestId)"
  shows "(truthy (field (field (field resp ''data'') ''personDetails'') ''photo'')
            \<longrightarrow> field (field (field stored ''data'') ''personDetails'') ''photo''
                  = Str ''[PHOTO_DATA_REMOVED_FOR_STORAGE]'')
       \<and> (truthy (field (field resp ''data'') ''photo'')
            \<longrightarrow> field (field stored ''data'') ''photo'' = Str ''[PHOTO_DATA_REMOVED_FOR_STORAGE]'')
       \<and> (\<forall>f s. f \<in> {''image'', ''picture'', ''avatar'', ''signature''}
                 \<and> field (field resp ''data'') f = Str s \<and> startsWith s ''data:''
            \<longrightarrow> field (field stored ''data'') f
                  = Str (''['' @ toUpperCase f @ ''_DATA_REMOVED_FOR_STORAGE]''))"
proof -
  have st: "stored = sanitizeResponseData resp"
    using stored stored_response [OF parse] by simp
  have df: "\<And>f. field (field stored ''data'') f =
     field (field (foldl redact_large (redact_photo (redact_personDetails resp)) largeFields) ''data'') f"
    unfolding st using json by (rule data_field_sanitized)
  have one: "truthy (field (field (field resp ''data'') ''personDetails'') ''photo'')
            \<longrightarrow> field (field (field stored ''data'') ''personDetails'') ''photo''
                  = Str ''[PHOTO_DATA_REMOVED_FOR_STORAGE]''"
  proof
    assume t: "truthy (field (field (field resp ''data'') ''personDetails'') ''photo'')"
    then obtain kvs where pd: "field (field resp ''data'') ''personDetails'' = Obj kvs"
      using truthy_field_Obj by blast
    have "field (field stored ''data'') ''personDetails''
            = set_field (Obj kvs) ''photo'' (Str ''[PHOTO_DATA_REMOVED_FOR_STORAGE]'')"
      using t pd by (simp add: df largeFields_def data_field_redact)
    then show "field (field (field stored ''data'') ''personDetails'') ''photo''
                  = Str ''[PHOTO_DATA_REMOVED_FOR_STORAGE]''"
      by (simp add: update_conv')
  qed
  have two: "truthy (field (field resp ''data'') ''photo'')
            \<longrightarrow> field (field stored ''data'') ''photo'' = Str ''[PHOTO_DATA_REMOVED_FOR_STORAGE]''"
    by (simp add: df largeFields_def data_field_redact)
  have three: "\<forall>f s. f \<in> {''image'', ''picture'', ''avatar'', ''signature''}
                 \<and> field (field resp ''data'') f = Str s \<and> startsWith s ''data:''
            \<longrightarrow> field (field stored ''data'') f
                  = Str (''['' @ toUpperCase f @ ''_DATA_REMOVED_FOR_STORAGE]'')"
  proof (intro allI impI)
    fix f s
    assume a: "f \<in> {''image'', ''picture'', ''avatar'', ''signature''}
                 \<and> field (field resp ''data'') f = Str s \<and> startsWith s ''data:''"
    then have f: "f \<in> set largeFields" "f \<noteq> ''photo''" "f \<noteq> ''personDetails''"
      by (auto simp: largeFields_def)
    have "field (field (redact_photo (redact_personDetails resp)) ''data'') f = Str s"
      using f a by (simp add: data_field_redact_photo data_field_redact_personDetails)
    then show "field (field stored ''data'') f
                  = Str (''['' @ toUpperCase f @ ''_DATA_REMOVED_FOR_STORAGE]'')"
      using a data_field_foldl_member [of largeFields f "redact_photo (redact_personDetails resp)"] f(1)
      by (simp only: df) (auto simp: largeFields_def)
  qed
  from one two three show ?thesis by blast
qed

theorem audit_record_redaction_witness:
  "response_data (logData sanitizeResponseData (codec_of ''{...}'' photo_response) verify_request 200
                    (Str ''{...}'') 37 ''req-1'')
   = Obj [(''success'', Bool True),
          (''data'', Obj [(''nid'', Str ''12345678901234567''), (''verified'', Bool True),
                          (''personDetails'',
                             Obj [(''name'', Str ''Jane Doe''),
                                  (''photo'', Str ''[PHOTO_DATA_REMOVED_FOR_STORAGE]'')])])]"
proof -
  let ?C = "codec_of ''{...}'' photo_response"
  let ?stored = "response_data (logData sanitizeResponseData ?C verify_request 200
                                   (Str ''{...}'') 37 ''req-1'')"
  have a: "''{...}'' \<noteq> []" "json_parse ?C ''{...}'' = Some photo_response" "is_json photo_response"
    "truthy (field (field (field photo_response ''data'') ''personDetails'') ''photo'')"
    by (simp_all add: codec_of_def photo_response_def)
  have "field (field (field ?stored ''data'') ''personDetails'') ''photo''
          = Str ''[PHOTO_DATA_REMOVED_FOR_STORAGE]''"
    using audit_record_redaction [OF a(1) a(2) a(3) refl, of verify_request 200 37 "''req-1''"] a(4)
    by blast
  moreover have "?stored = sanitizeResponseData photo_response"
    by (simp add: logData_def parsedResponseData_def codec_of_def)
  ultimately show ?thesis
    by (simp add: sanitizeResponseData_def photo_response_def redact_personDetails_def
        redact_photo_def redact_large_def largeFields_def Let_def)
qed

text \<open>
  C3, as stated, fails twice. The sanitizer looks at fixed places only: the logger copy
  that calls it stores a data URL held by \<open>data.personDetails.signature\<close> as it came. And
  the logger copy in \<open>src/src/middleware/requestLogger.js\<close> does not call the sanitizer:
  it stores even \<open>data.personDetails.photo\<close> with its base64 payload.
\<close>

theorem sanitizeResponseData_nested_signature_counterexample:
  "response_data (logData sanitizeResponseData (codec_of ''{...}'' signature_response) verify_request 200
                    (Str ''{...}'') 37 ''req-1'')
     = signature_response
   \<and> field (field (field signature_response ''data'') ''personDetails'') ''signature''
     = Str ''data:image/png;base64,iVBORw0KGgo=''
   \<and> response_data (logData unsanitized (codec_of ''{...}'' photo_response) verify_request 200
                    (Str ''{...}'') 37 ''req-1'')
     = photo_response
   \<and> field (field (field photo_response ''data'') ''personDetails'') ''photo''
     = Str ''data:image/jpeg;base64,AAA''"
  by (simp add: logData_def parsedResponseData_def codec_of_def sanitizeResponseData_def
      unsanitized_def signature_response_def photo_response_def redact_personDetails_def
      redact_photo_def redact_large_def largeFields_def Let_def)

text \<open>
  C9 (for either copy of the logger): the overridden \<open>send\<close> hands the body to the original \<open>send\<close> while the INSERT is
  still in flight and no row has been stored. However the INSERT settles afterwards, the
  logging promise resolves without error and the delivered body stays what it was; on a
  failed INSERT nothing is stored and the only trace is two error lines of the logger.
\<close>

theorem audit_write_decoupled:
  "let row = logData sanitize C req statusCode d (now - startTime) requestId;
       s1 = res_send sanitize C req statusCode startTime now requestId d s
   in delivered s1 = delivered s @ [d]
      \<and> request_logs s1 = request_logs s
      \<and> in_flight s1 = in_flight s @ [row]
      \<and> (\<forall>out. snd (logRequestToDatabase_settle out row s1) = Inr ()
               \<and> delivered (fst (logRequestToDatabase_settle out row s1)) = delivered s1)
      \<and> (\<forall>m. request_logs (fst (logRequestToDatabase_settle (Failed m) row s1)) = request_logs s
               \<and> error_log (fst (logRequestToDatabase_settle (Failed m) row s1))
                   = error_log s @ [''Database execute error: '' @ m,
                                    ''Failed to log request to database: '' @ m])
      \<and> request_logs (fst (logRequestToDatabase_settle Executed row s1)) = request_logs s @ [row]"
  by (auto simp: res_send_def logRequestToDatabase_issue_def logRequestToDatabase_settle_def
      db_run_def Let_def split: db_outcome.splits)


section \<open>Properties of concurrent callers\<close>

text \<open>Taken one after the other, the two steps are \<open>ensureValidToken\<close>.\<close>

lemma authenticate_split:
  "authenticate E w = authenticate_resume E (length (calls w)) (authenticate_issue E w)"
  by (simp add: authenticate_def authenticate_resume_def authenticate_issue_def authPayload_def
      send_def Let_def split: outcome.splits sum.splits prod.splits)

lemma ensureValidToken_split:
  "run E [Enter 0, Resume 0] (w, [Entering])
     = (fst (ensureValidToken E w), [Returned (snd (ensureValidToken E w))])"
  by (auto simp: run_def ensureValidToken_def ensureValidToken_enter_def ensureValidToken_resume_def
      authenticate_split split: prod.splits sum.splits)

text \<open>
  C6, as stated, fails: two callers enter while no credential is cached, each before the
  other's login reply has arrived. Two login requests go out, and each caller returns on
  the reply to its own.
\<close>

theorem concurrent_callers_counterexample:
  "run (env_with unauthorized_once) [Enter 0, Enter 1, Resume 0, Resume 1] (fresh, [Entering, Entering])
   = (\<lparr>accessToken = Str ''tok'', tokenExpiry = Some 3600080, clock = 80,
       calls = [Login (Obj [(''username'', Str ''svc''), (''password'', Str ''secret'')]),
                Login (Obj [(''username'', Str ''svc''), (''password'', Str ''secret'')])]\<rparr>,
      [Returned (Inr ()), Returned (Inr ())])"
  by (simp add: run_def ensureValidToken_enter_def ensureValidToken_resume_def authenticate_issue_def
      authenticate_resume_def authPayload_def axios_result_def env_with_def fresh_def login_body_def Let_def)

lemma enter_all:
  assumes "\<not> truthy (accessToken w)
         \<or> (case tokenExpiry w of None \<Rightarrow> False | Some expiry \<Rightarrow> clock w \<ge> expiry)"
  shows "k \<le> N \<Longrightarrow>
     run E (map Enter [0..<k]) (w, replicate N Entering)
       = (w\<lparr>calls := calls w @ replicate k (Login (authPayload E))\<rparr>,
          map (\<lambda>i. Awaiting (length (calls w) + i)) [0..<k] @ replicate (N - k) Entering)"
proof (induction k)
  case 0
  then show ?case by (simp add: run_def)
next
  case (Suc k)
  let ?w = "w\<lparr>calls := calls w @ replicate k (Login (authPayload E))\<rparr>"
  let ?cs = "map (\<lambda>i. Awaiting (length (calls w) + i)) [0..<k] @ replicate (N - k) Entering"
  have prev: "run E (map Enter [0..<k]) (w, replicate N Entering) = (?w, ?cs)"
    using Suc by simp
  have rep: "replicate (N - k) Entering = Entering # replicate (N - Suc k) Entering"
    using Suc.prems by (cases "N - k") (auto simp: Suc_diff_Suc)
  have nth: "k < length ?cs" "?cs ! k = Entering"
    using Suc.prems by (auto simp: nth_append)
  have enter: "ensureValidToken_enter E ?w
      = (w\<lparr>calls := calls w @ replicate (Suc k) (Login (authPayload E))\<rparr>,
         Awaiting (length (calls w) + k))"
    using assms by (auto simp: ensureValidToken_enter_def authenticate_issue_def replicate_append_same
        split: option.splits)
  have upd: "?cs[k := Awaiting (length (calls w) + k)]
      = map (\<lambda>i. Awaiting (length (calls w) + i)) [0..<Suc k] @ replicate (N - Suc k) Entering"
    by (simp add: rep list_update_append)
  have "run E (map Enter [0..<Suc k]) (w, replicate N Entering) = step E (?w, ?cs) (Enter k)"
    using prev by (simp add: run_def)
  also have "\<dots> = (w\<lparr>calls := calls w @ replicate (Suc k) (Login (authPayload E))\<rparr>,
                   ?cs[k := Awaiting (length (calls w) + k)])"
    using nth enter by simp
  finally show ?case using upd by simp
qed


text \<open>
  C6, amended: \<open>N\<close> callers that enter while no valid credential is cached, before any
  login reply has arrived, send \<open>N\<close> login requests, one each; caller \<open>i\<close> awaits the
  reply to its own request and, when resumed, continues with that reply.
\<close>

theorem concurrent_callers_each_authenticate:
  assumes "\<not> truthy (accessToken w)
         \<or> (case tokenExpiry w of None \<Rightarrow> False | Some expiry \<Rightarrow> clock w \<ge> expiry)"
  shows "run E (map Enter [0..<N]) (w, replicate N Entering)
           = (w\<lparr>calls := calls w @ replicate N (Login (authPayload E))\<rparr>,
              map (\<lambda>i. Awaiting (length (calls w) + i)) [0..<N])
       \<and> (\<forall>i<N. \<forall>w1 cs. cs ! i = Awaiting (length (calls w) + i) \<and> length cs = N
              \<longrightarrow> step E (w1, cs) (Resume i)
                   = (fst (ensureValidToken_resume E (length (calls w) + i) w1),
                      cs[i := snd (ensureValidToken_resume E (length (calls w) + i) w1)]))"
proof -
  have "run E (map Enter [0..<N]) (w, replicate N Entering)
           = (w\<lparr>calls := calls w @ replicate N (Login (authPayload E))\<rparr>,
              map (\<lambda>i. Awaiting (length (calls w) + i)) [0..<N])"
    using enter_all [OF assms, of N N E] by simp
  moreover have "\<forall>i<N. \<forall>w1 cs. cs ! i = Awaiting (length (calls w) + i) \<and> length cs = N
              \<longrightarrow> step E (w1, cs) (Resume i)
                   = (fst (ensureValidToken_resume E (length (calls w) + i) w1),
                      cs[i := snd (ensureValidToken_resume E (length (calls w) + i) w1)])"
    by (auto split: prod.splits)
  ultimately show ?thesis by blast
qed

theorem concurrent_callers_each_authenticate_witness:
  "run (env_with unauthorized_once) (map Enter [0..<2]) (fresh, replicate 2 Entering)
     = (fresh\<lparr>calls := [Login (authPayload (env_with unauthorized_once)),
                          Login (authPayload (env_with unauthorized_once))]\<rparr>,
        [Awaiting 0, Awaiting 1])"
proof -
  have "\<not> truthy (accessToken fresh)" by (simp add: fresh_def)
  then have "run (env_with unauthorized_once) (map Enter [0..<2]) (fresh, replicate 2 Entering)
           = (fresh\<lparr>calls := calls fresh @ replicate 2 (Login (authPayload (env_with unauthorized_once)))\<rparr>,
              map (\<lambda>i. Awaiting (length (calls fresh) + i)) [0..<2])"
    using concurrent_callers_each_authenticate [of fresh "env_with unauthorized_once" 2] by blast
  moreover have "[0..<2] = [0, Suc 0]" by (simp add: upt_rec)
  moreover have "replicate 2 (Login (authPayload (env_with unauthorized_once)))
       = [Login (authPayload (env_with unauthorized_once)), Login (authPayload (env_with unauthorized_once))]"
    by (simp add: numeral_2_eq_2)
  ultimately show ?thesis by (simp add: fresh_def)
qed

section \<open>Properties of sanitization on a heap\<close>

lemma extendsI:
  "h1 = h @ ext \<Longrightarrow> list_all (fresh_cell (length h)) ext \<Longrightarrow> extends h h1"
  by (simp add: extends_def)

lemma extendsE:
  assumes "extends h h1"
  obtains ext where "h1 = h @ ext" "list_all (fresh_cell (length h)) ext"
proof -
  have "h1 = h @ drop (length h) h1"
    using assms by (metis append_take_drop_id extends_def)
  then show ?thesis using assms that unfolding extends_def by blast
qed

lemma alloc_extends:
  "n \<le> length h \<Longrightarrow>
     \<exists>ext. snd (alloc j h) = h @ ext \<and> list_all (fresh_cell n) ext \<and> fresh_val n (fst (alloc j h))"
  "n \<le> length h \<Longrightarrow>
     \<exists>ext. snd (alloc_list xs h) = h @ ext \<and> list_all (fresh_cell n) ext
          \<and> list_all (fresh_val n) (fst (alloc_list xs h))"
  "n \<le> length h \<Longrightarrow>
     \<exists>ext. snd (alloc_fields kvs h) = h @ ext \<and> list_all (fresh_cell n) ext
          \<and> list_all (\<lambda>kv. fresh_val n (snd kv)) (fst (alloc_fields kvs h))"
proof (induction j h and xs h and kvs h rule: alloc_alloc_list_alloc_fields.induct)
  case (6 xs h)
  obtain vs h1 where a: "alloc_list xs h = (vs, h1)" by (cases "alloc_list xs h")
  from 6 a obtain ext where e: "h1 = h @ ext" "list_all (fresh_cell n) ext" "list_all (fresh_val n) vs"
    by auto
  have "snd (alloc (Arr xs) h) = h @ (ext @ [ArrCell vs])" using a e by simp
  moreover have "list_all (fresh_cell n) (ext @ [ArrCell vs])" using e by simp
  moreover have "fresh_val n (fst (alloc (Arr xs) h))" using a e 6 by simp
  ultimately show ?case by blast
next
  case (7 kvs h)
  obtain fs h1 where a: "alloc_fields kvs h = (fs, h1)" by (cases "alloc_fields kvs h")
  from 7 a obtain ext where e: "h1 = h @ ext" "list_all (fresh_cell n) ext"
      "list_all (\<lambda>kv. fresh_val n (snd kv)) fs"
    by auto
  have "snd (alloc (Obj kvs) h) = h @ (ext @ [ObjCell fs])" using a e by simp
  moreover have "list_all (fresh_cell n) (ext @ [ObjCell fs])" using e by simp
  moreover have "fresh_val n (fst (alloc (Obj kvs) h))" using a e 7 by simp
  ultimately show ?case by blast
next
  case (9 x xs h)
  obtain v h1 where a: "alloc x h = (v, h1)" by (cases "alloc x h")
  obtain vs h2 where b: "alloc_list xs h1 = (vs, h2)" by (cases "alloc_list xs h1")
  from 9(1) [OF "9.prems"] a obtain e1 where e1: "h1 = h @ e1" "list_all (fresh_cell n) e1" "fresh_val n v"
    by auto
  then have "n \<le> length h1" using "9.prems" by simp
  from 9(2) [OF a [symmetric] this] b obtain e2 where
    e2: "h2 = h1 @ e2" "list_all (fresh_cell n) e2" "list_all (fresh_val n) vs"
    by auto
  have "snd (alloc_list (x # xs) h) = h @ (e1 @ e2)" using a b e1 e2 by simp
  moreover have "list_all (fresh_cell n) (e1 @ e2)" using e1 e2 by simp
  moreover have "list_all (fresh_val n) (fst (alloc_list (x # xs) h))" using a b e1 e2 by simp
  ultimately show ?case by blast
next
  case (11 k x kvs h)
  obtain v h1 where a: "alloc x h = (v, h1)" by (cases "alloc x h")
  obtain fs h2 where b: "alloc_fields kvs h1 = (fs, h2)" by (cases "alloc_fields kvs h1")
  from 11(1) [OF "11.prems"] a obtain e1 where e1: "h1 = h @ e1" "list_all (fresh_cell n) e1" "fresh_val n v"
    by auto
  then have "n \<le> length h1" using "11.prems" by simp
  from 11(2) [OF a [symmetric] this] b obtain e2 where
    e2: "h2 = h1 @ e2" "list_all (fresh_cell n) e2" "list_all (\<lambda>kv. fresh_val n (snd kv)) fs"
    by auto
  have "snd (alloc_fields ((k, x) # kvs) h) = h @ (e1 @ e2)" using a b e1 e2 by simp
  moreover have "list_all (fresh_cell n) (e1 @ e2)" using e1 e2 by simp
  moreover have "list_all (\<lambda>kv. fresh_val n (snd kv)) (fst (alloc_fields ((k, x) # kvs) h))"
    using a b e1 e2 by simp
  ultimately show ?case by blast
qed simp_all

lemma alloc_extends_heap: "alloc j h = (v, h1) \<Longrightarrow> extends h h1 \<and> fresh_val (length h) v"
  using alloc_extends(1) [of "length h" h j] by (auto intro: extendsI)

lemma map_of_fresh:
  "list_all (\<lambda>kv. fresh_val n (snd kv)) kvs \<Longrightarrow> map_of kvs k = Some v \<Longrightarrow> fresh_val n v"
  using map_of_SomeD [of kvs k v] by (force simp: list_all_iff)

lemma hfield_fresh:
  assumes "extends h h1" and "fresh_val (length h) v"
  shows "fresh_val (length h) (hfield h1 v k)"
proof (cases v)
  case (HRef a)
  from assms(1) obtain ext where e: "h1 = h @ ext" "list_all (fresh_cell (length h)) ext"
    by (rule extendsE)
  show ?thesis
  proof (cases "a < length h1")
    case True
    then have "h1 ! a = ext ! (a - length h)" "a - length h < length ext"
      using assms(2) HRef e by (auto simp: nth_append)
    then have "fresh_cell (length h) (h1 ! a)"
      using e(2) by (simp add: list_all_length)
    then show ?thesis using HRef True
      by (cases "h1 ! a") (auto split: option.splits dest: map_of_fresh)
  next
    case False
    then show ?thesis using HRef by simp
  qed
qed simp_all

lemma update_fresh:
  "list_all (\<lambda>kv. fresh_val n (snd kv)) kvs \<Longrightarrow> fresh_val n v \<Longrightarrow>
   list_all (\<lambda>kv. fresh_val n (snd kv)) (AList.update k v kvs)"
  by (induction kvs) auto

lemma hset_field_extends:
  assumes "extends h h1" and "fresh_val (length h) v" and "fresh_val (length h) x"
  shows "extends h (hset_field h1 v k x)"
proof (cases v)
  case (HRef a)
  from assms(1) obtain ext where e: "h1 = h @ ext" "list_all (fresh_cell (length h)) ext"
    by (rule extendsE)
  show ?thesis
  proof (cases "a < length h1")
    case True
    then have a: "h1 ! a = ext ! (a - length h)" "a - length h < length ext" "length h \<le> a"
      using assms(2) HRef e by (auto simp: nth_append)
    show ?thesis
    proof (cases "h1 ! a")
      case (ObjCell kvs)
      then have "list_all (\<lambda>kv. fresh_val (length h) (snd kv)) kvs"
        using e(2) a by (auto simp: list_all_length)
      then have c: "fresh_cell (length h) (ObjCell (AList.update k x kvs))"
        using assms(3) by (simp add: update_fresh)
      have "hset_field h1 v k x = h @ ext[a - length h := ObjCell (AList.update k x kvs)]"
        using HRef True ObjCell a(3) e(1) by (simp add: list_update_append)
      moreover have "list_all (fresh_cell (length h)) (ext[a - length h := ObjCell (AList.update k x kvs)])"
        using e(2) c set_update_subset_insert [of ext "a - length h"]
        unfolding list_all_iff by blast
      ultimately show ?thesis by (rule extendsI)
    next
      case (ArrCell vs)
      then show ?thesis using HRef True assms(1) by simp
    qed
  next
    case False
    then show ?thesis using HRef assms(1) by simp
  qed
qed (use assms(1) in simp_all)

lemma hredact_personDetails_extends:
  "extends h h1 \<Longrightarrow> fresh_val (length h) sanitized \<Longrightarrow> extends h (hredact_personDetails h1 sanitized)"
  by (simp add: hredact_personDetails_def Let_def hset_field_extends hfield_fresh)

lemma hredact_photo_extends:
  "extends h h1 \<Longrightarrow> fresh_val (length h) sanitized \<Longrightarrow> extends h (hredact_photo h1 sanitized)"
  by (simp add: hredact_photo_def Let_def hset_field_extends hfield_fresh)

lemma hredact_large_extends:
  "extends h h1 \<Longrightarrow> fresh_val (length h) sanitized \<Longrightarrow> extends h (hredact_large sanitized h1 f)"
  by (simp add: hredact_large_def Let_def hset_field_extends hfield_fresh)

lemma foldl_hredact_large_extends:
  "extends h h1 \<Longrightarrow> fresh_val (length h) sanitized \<Longrightarrow>
   extends h (foldl (hredact_large sanitized) h1 fs)"
  by (induction fs arbitrary: h1) (simp_all add: hredact_large_extends)

lemma extends_refl: "extends h h"
  by (simp add: extends_def)

lemma sanitizeResponseData_heap_extends:
  "sanitizeResponseData_heap h d = (h', r) \<Longrightarrow> extends h h'"
  by (auto simp: sanitizeResponseData_heap_def extends_refl
      split: if_splits option.splits prod.splits
      dest!: alloc_extends_heap
      intro!: foldl_hredact_large_extends hredact_photo_extends hredact_personDetails_extends)

lemma those_fields_Some:
  "those_fields xs = Some ys \<Longrightarrow> kv \<in> set xs \<Longrightarrow> snd kv \<noteq> None"
  by (induction xs arbitrary: ys rule: those_fields.induct) auto

lemma those_Some: "those xs = Some ys \<Longrightarrow> x \<in> set xs \<Longrightarrow> x \<noteq> None"
  by (induction xs arbitrary: ys) (auto split: option.splits)

lemma snapshot_append:
  "snapshot n h v = Some j \<Longrightarrow> snapshot n (h @ ext) v = Some j"
proof (induction n arbitrary: v j)
  case 0
  then show ?case by (cases v) auto
next
  case (Suc n)
  show ?case
  proof (cases v)
    case (HRef a)
    with Suc.prems have a: "a < length h" by (auto split: if_splits)
    show ?thesis
    proof (cases "h ! a")
      case (ObjCell kvs)
      with Suc.prems HRef a obtain fs where
        fs: "those_fields (map (\<lambda>kv. (fst kv, snapshot n h (snd kv))) kvs) = Some fs"
        by auto
      have m: "map (\<lambda>kv. (fst kv, snapshot n (h @ ext) (snd kv))) kvs
              = map (\<lambda>kv. (fst kv, snapshot n h (snd kv))) kvs"
      proof (rule map_cong [OF refl])
        fix kv assume "kv \<in> set kvs"
        then have "snapshot n h (snd kv) \<noteq> None"
          using those_fields_Some [OF fs, of "(fst kv, snapshot n h (snd kv))"] by force
        then show "(fst kv, snapshot n (h @ ext) (snd kv)) = (fst kv, snapshot n h (snd kv))"
          using Suc.IH by auto
      qed
      show ?thesis using Suc.prems HRef a ObjCell by (simp add: nth_append m)
    next
      case (ArrCell vs)
      with Suc.prems HRef a obtain js where js: "those (map (snapshot n h) vs) = Some js"
        by auto
      have m: "map (snapshot n (h @ ext)) vs = map (snapshot n h) vs"
      proof (rule map_cong [OF refl])
        fix x assume "x \<in> set vs"
        then have "snapshot n h x \<noteq> None"
          using those_Some [OF js, of "snapshot n h x"] by force
        then show "snapshot n (h @ ext) x = snapshot n h x"
          using Suc.IH by auto
      qed
      show ?thesis using Suc.prems HRef a ArrCell by (simp add: nth_append m)
    qed
  qed (use Suc.prems in auto)
qed

text \<open>Allocation builds a represented tree; reads, writes and the three passes of the
  sanitizer keep the representation in step with the value-level functions.\<close>

lemma rep_bounds:
  "rep_in h lo hi v x \<Longrightarrow> lo \<le> hi"
  "reps_fields h lo hi fs kvs \<Longrightarrow> lo \<le> hi"
  "reps_list h lo hi vs xs \<Longrightarrow> lo \<le> hi"
  by (induction rule: rep_in_reps_fields_reps_list.inducts) auto

lemma rep_local:
  "rep_in h lo hi v x \<Longrightarrow>
     length h \<le> length h' \<Longrightarrow> (\<forall>a. lo \<le> a \<and> a < hi \<and> a < length h \<longrightarrow> h' ! a = h ! a)
     \<Longrightarrow> rep_in h' lo hi v x"
  "reps_fields h lo hi fs kvs \<Longrightarrow>
     length h \<le> length h' \<Longrightarrow> (\<forall>a. lo \<le> a \<and> a < hi \<and> a < length h \<longrightarrow> h' ! a = h ! a)
     \<Longrightarrow> reps_fields h' lo hi fs kvs"
  "reps_list h lo hi vs xs \<Longrightarrow>
     length h \<le> length h' \<Longrightarrow> (\<forall>a. lo \<le> a \<and> a < hi \<and> a < length h \<longrightarrow> h' ! a = h ! a)
     \<Longrightarrow> reps_list h' lo hi vs xs"
proof (induction rule: rep_in_reps_fields_reps_list.inducts)
  case (rep_Obj a h fs lo kvs hi)
  have "lo \<le> a" using rep_Obj.hyps by (auto dest: rep_bounds)
  then have "h' ! a = ObjCell fs" "a < length h'" using rep_Obj by auto
  moreover have "reps_fields h' lo a fs kvs" using rep_Obj by auto
  ultimately show ?case using rep_Obj.hyps by (auto intro: rep_in_reps_fields_reps_list.intros)
next
  case (rep_Arr a h vs lo xs hi)
  have "lo \<le> a" using rep_Arr.hyps by (auto dest: rep_bounds)
  then have "h' ! a = ArrCell vs" "a < length h'" using rep_Arr by auto
  moreover have "reps_list h' lo a vs xs" using rep_Arr by auto
  ultimately show ?case using rep_Arr.hyps by (auto intro: rep_in_reps_fields_reps_list.intros)
next
  case (fields_Cons h lo mid v x hi fs kvs k)
  have b: "lo \<le> mid" "mid \<le> hi" using fields_Cons.hyps by (auto dest: rep_bounds)
  have "rep_in h' lo mid v x" using fields_Cons b by auto
  moreover have "reps_fields h' mid hi fs kvs" using fields_Cons b by auto
  ultimately show ?case by (rule rep_in_reps_fields_reps_list.fields_Cons)
next
  case (list_Cons h lo mid v x hi vs xs)
  have b: "lo \<le> mid" "mid \<le> hi" using list_Cons.hyps by (auto dest: rep_bounds)
  have "rep_in h' lo mid v x" using list_Cons b by auto
  moreover have "reps_list h' mid hi vs xs" using list_Cons b by auto
  ultimately show ?case by (rule rep_in_reps_fields_reps_list.list_Cons)
qed (auto intro: rep_in_reps_fields_reps_list.intros)

lemma rep_append:
  "rep_in h lo hi v x \<Longrightarrow> rep_in (h @ ext) lo hi v x"
  "reps_fields h lo hi fs kvs \<Longrightarrow> reps_fields (h @ ext) lo hi fs kvs"
  "reps_list h lo hi vs xs \<Longrightarrow> reps_list (h @ ext) lo hi vs xs"
  by (auto elim!: rep_local simp: nth_append)

lemma alloc_append:
  "\<exists>ext. snd (alloc j h) = h @ ext"
  "\<exists>ext. snd (alloc_list xs h) = h @ ext"
  "\<exists>ext. snd (alloc_fields kvs h) = h @ ext"
  using alloc_extends [of 0 h] by blast+

lemma alloc_rep:
  "rep_in (snd (alloc j h)) (length h) (length (snd (alloc j h))) (fst (alloc j h)) j"
  "reps_list (snd (alloc_list xs h)) (length h) (length (snd (alloc_list xs h)))
     (fst (alloc_list xs h)) xs"
  "reps_fields (snd (alloc_fields kvs h)) (length h) (length (snd (alloc_fields kvs h)))
     (fst (alloc_fields kvs h)) kvs"
proof (induction j h and xs h and kvs h rule: alloc_alloc_list_alloc_fields.induct)
  case (6 xs h)
  obtain vs h1 where a: "alloc_list xs h = (vs, h1)" by (cases "alloc_list xs h")
  have "reps_list h1 (length h) (length h1) vs xs" using 6 a by simp
  then have "reps_list (h1 @ [ArrCell vs]) (length h) (length h1) vs xs" by (rule rep_append)
  then have "rep_in (h1 @ [ArrCell vs]) (length h) (Suc (length h1)) (HRef (length h1)) (Arr xs)"
    by (intro rep_Arr) auto
  then show ?case using a by simp
next
  case (7 kvs h)
  obtain fs h1 where a: "alloc_fields kvs h = (fs, h1)" by (cases "alloc_fields kvs h")
  have "reps_fields h1 (length h) (length h1) fs kvs" using 7 a by simp
  then have "reps_fields (h1 @ [ObjCell fs]) (length h) (length h1) fs kvs" by (rule rep_append)
  then have "rep_in (h1 @ [ObjCell fs]) (length h) (Suc (length h1)) (HRef (length h1)) (Obj kvs)"
    by (intro rep_Obj) auto
  then show ?case using a by simp
next
  case (9 x xs h)
  obtain v h1 where a: "alloc x h = (v, h1)" by (cases "alloc x h")
  obtain vs h2 where b: "alloc_list xs h1 = (vs, h2)" by (cases "alloc_list xs h1")
  obtain ext where e: "h2 = h1 @ ext" using alloc_append(2) [of xs h1] b by auto
  have "rep_in h1 (length h) (length h1) v x" using 9(1) a by simp
  then have "rep_in h2 (length h) (length h1) v x" unfolding e by (rule rep_append)
  moreover have "reps_list h2 (length h1) (length h2) vs xs"
    using 9(2) [OF a [symmetric]] b by simp
  ultimately have "reps_list h2 (length h) (length h2) (v # vs) (x # xs)" by (rule list_Cons)
  then show ?case using a b by simp
next
  case (11 k x kvs h)
  obtain v h1 where a: "alloc x h = (v, h1)" by (cases "alloc x h")
  obtain fs h2 where b: "alloc_fields kvs h1 = (fs, h2)" by (cases "alloc_fields kvs h1")
  obtain ext where e: "h2 = h1 @ ext" using alloc_append(3) [of kvs h1] b by auto
  have "rep_in h1 (length h) (length h1) v x" using 11(1) a by simp
  then have "rep_in h2 (length h) (length h1) v x" unfolding e by (rule rep_append)
  moreover have "reps_fields h2 (length h1) (length h2) fs kvs"
    using 11(2) [OF a [symmetric]] b by simp
  ultimately have "reps_fields h2 (length h) (length h2) ((k, v) # fs) ((k, x) # kvs)"
    by (rule fields_Cons)
  then show ?case using a b by simp
qed (auto intro: rep_in_reps_fields_reps_list.intros)

lemma rep_truthy: "rep_in h lo hi v x \<Longrightarrow> htruthy v = truthy x"
  by (erule rep_in.cases) auto

lemma rep_Str_iff: "rep_in h lo hi v x \<Longrightarrow> (v = HStr s) = (x = Str s)"
  by (erule rep_in.cases) auto

text \<open>A property read through a reference: the value found represents the property of
  the tree, inside a part of the interval that the rest of the tree does not use.\<close>

lemma fields_lookup:
  "rep_in h lo hi v x \<Longrightarrow> True"
  "reps_fields h lo hi fs kvs \<Longrightarrow>
     (case map_of fs k of
        None \<Rightarrow> map_of kvs k = None
      | Some vk \<Rightarrow>
          (\<exists>xk m1 m2. map_of kvs k = Some xk \<and> lo \<le> m1 \<and> m2 \<le> hi \<and> rep_in h m1 m2 vk xk
             \<and> (\<forall>h' x'. length h' = length h
                    \<longrightarrow> (\<forall>a. a < length h \<and> \<not> (m1 \<le> a \<and> a < m2) \<longrightarrow> h' ! a = h ! a)
                    \<longrightarrow> rep_in h' m1 m2 vk x'
                    \<longrightarrow> reps_fields h' lo hi fs (AList.update k x' kvs))))"
  "reps_list h lo hi vs xs \<Longrightarrow> True"
proof (induction rule: rep_in_reps_fields_reps_list.inducts)
  case (fields_Cons h lo mid v x hi fs kvs k')
  have b: "lo \<le> mid" "mid \<le> hi" using fields_Cons.hyps by (auto dest: rep_bounds)
  show ?case
  proof (cases "k' = k")
    case True
    have "\<forall>h' x'. length h' = length h
            \<longrightarrow> (\<forall>a. a < length h \<and> \<not> (lo \<le> a \<and> a < mid) \<longrightarrow> h' ! a = h ! a)
            \<longrightarrow> rep_in h' lo mid v x'
            \<longrightarrow> reps_fields h' lo hi ((k', v) # fs) (AList.update k x' ((k', x) # kvs))"
    proof (intro allI impI)
      fix h' x'
      assume l: "length h' = length h"
        and f: "\<forall>a. a < length h \<and> \<not> (lo \<le> a \<and> a < mid) \<longrightarrow> h' ! a = h ! a"
        and r: "rep_in h' lo mid v x'"
      have "reps_fields h' mid hi fs kvs"
        using rep_local(2) [of h mid hi fs kvs h'] fields_Cons.hyps l f by auto
      with r have "reps_fields h' lo hi ((k', v) # fs) ((k', x') # kvs)"
        by (rule rep_in_reps_fields_reps_list.fields_Cons)
      then show "reps_fields h' lo hi ((k', v) # fs) (AList.update k x' ((k', x) # kvs))"
        using True by simp
    qed
    then show ?thesis using True fields_Cons.hyps(1) b by auto
  next
    case False
    show ?thesis
    proof (cases "map_of fs k")
      case None
      then show ?thesis using False fields_Cons.IH by simp
    next
      case (Some vk)
      with fields_Cons.IH obtain xk m1 m2 where
        xk: "map_of kvs k = Some xk" "mid \<le> m1" "m2 \<le> hi" "rep_in h m1 m2 vk xk"
        and ctx: "\<And>h' x'. length h' = length h
                    \<Longrightarrow> (\<forall>a. a < length h \<and> \<not> (m1 \<le> a \<and> a < m2) \<longrightarrow> h' ! a = h ! a)
                    \<Longrightarrow> rep_in h' m1 m2 vk x'
                    \<Longrightarrow> reps_fields h' mid hi fs (AList.update k x' kvs)"
        by auto
      have "\<forall>h' x'. length h' = length h
            \<longrightarrow> (\<forall>a. a < length h \<and> \<not> (m1 \<le> a \<and> a < m2) \<longrightarrow> h' ! a = h ! a)
            \<longrightarrow> rep_in h' m1 m2 vk x'
            \<longrightarrow> reps_fields h' lo hi ((k', v) # fs) (AList.update k x' ((k', x) # kvs))"
      proof (intro allI impI)
        fix h' x'
        assume l: "length h' = length h"
          and f: "\<forall>a. a < length h \<and> \<not> (m1 \<le> a \<and> a < m2) \<longrightarrow> h' ! a = h ! a"
          and r: "rep_in h' m1 m2 vk x'"
        have "rep_in h' lo mid v x"
          using rep_local(1) [of h lo mid v x h'] fields_Cons.hyps l f xk(2) by auto
        moreover have "reps_fields h' mid hi fs (AList.update k x' kvs)"
          using ctx [OF l f r] .
        ultimately have "reps_fields h' lo hi ((k', v) # fs) ((k', x) # AList.update k x' kvs)"
          by (rule rep_in_reps_fields_reps_list.fields_Cons)
        then show "reps_fields h' lo hi ((k', v) # fs) (AList.update k x' ((k', x) # kvs))"
          using False by simp
      qed
      then have "\<exists>xk m1 m2. map_of ((k', x) # kvs) k = Some xk \<and> lo \<le> m1 \<and> m2 \<le> hi
             \<and> rep_in h m1 m2 vk xk
             \<and> (\<forall>h' x'. length h' = length h
                    \<longrightarrow> (\<forall>a. a < length h \<and> \<not> (m1 \<le> a \<and> a < m2) \<longrightarrow> h' ! a = h ! a)
                    \<longrightarrow> rep_in h' m1 m2 vk x'
                    \<longrightarrow> reps_fields h' lo hi ((k', v) # fs) (AList.update k x' ((k', x) # kvs)))"
        using False xk b by (intro exI [of _ xk] exI [of _ m1] exI [of _ m2]) auto
      then show ?thesis using False Some by simp
    qed
  qed
qed auto

lemma rep_field:
  assumes "rep_in h lo hi v x"
  shows "\<exists>m1 m2. lo \<le> m1 \<and> m2 \<le> hi \<and> rep_in h m1 m2 (hfield h v k) (field x k)
           \<and> (htruthy (hfield h v k) \<longrightarrow>
                (\<forall>h' x'. length h' = length h
                    \<longrightarrow> (\<forall>a. a < length h \<and> \<not> (m1 \<le> a \<and> a < m2) \<longrightarrow> h' ! a = h ! a)
                    \<longrightarrow> rep_in h' m1 m2 (hfield h v k) x'
                    \<longrightarrow> rep_in h' lo hi v (set_field x k x')))"
  using assms
proof (cases rule: rep_in.cases)
  case (rep_Obj a fs kvs)
  have la: "lo \<le> a" using rep_Obj by (auto dest: rep_bounds)
  show ?thesis
  proof (cases "map_of fs k")
    case None
    then have "map_of kvs k = None" using fields_lookup(2) [OF rep_Obj(5), of k] by simp
    then have "hfield h v k = HUndefined" "field x k = Undefined" using None rep_Obj by auto
    moreover have "rep_in h lo lo HUndefined Undefined" by (rule rep_Undefined) simp
    ultimately show ?thesis using la rep_Obj(6) by (intro exI [of _ lo] conjI) auto
  next
    case (Some vk)
    with fields_lookup(2) [OF rep_Obj(5), of k] obtain xk m1 m2 where
      xk: "map_of kvs k = Some xk" "lo \<le> m1" "m2 \<le> a" "rep_in h m1 m2 vk xk"
      and ctx: "\<And>h' x'. length h' = length h
                    \<Longrightarrow> (\<forall>a. a < length h \<and> \<not> (m1 \<le> a \<and> a < m2) \<longrightarrow> h' ! a = h ! a)
                    \<Longrightarrow> rep_in h' m1 m2 vk x'
                    \<Longrightarrow> reps_fields h' lo a fs (AList.update k x' kvs)"
      by auto
    have hf: "hfield h v k = vk" "field x k = xk" using Some xk rep_Obj by auto
    have "\<forall>h' x'. length h' = length h
                    \<longrightarrow> (\<forall>a. a < length h \<and> \<not> (m1 \<le> a \<and> a < m2) \<longrightarrow> h' ! a = h ! a)
                    \<longrightarrow> rep_in h' m1 m2 vk x'
                    \<longrightarrow> rep_in h' lo hi v (set_field x k x')"
    proof (intro allI impI)
      fix h' x'
      assume l: "length h' = length h"
        and f: "\<forall>a. a < length h \<and> \<not> (m1 \<le> a \<and> a < m2) \<longrightarrow> h' ! a = h ! a"
        and r: "rep_in h' m1 m2 vk x'"
      have "h' ! a = ObjCell fs" "a < length h'" using f l rep_Obj xk(3) by auto
      moreover have "reps_fields h' lo a fs (AList.update k x' kvs)" using ctx [OF l f r] .
      ultimately have "rep_in h' lo hi (HRef a) (Obj (AList.update k x' kvs))"
        using rep_Obj(6) by (intro rep_in_reps_fields_reps_list.rep_Obj) auto
      then show "rep_in h' lo hi v (set_field x k x')" using rep_Obj by simp
    qed
    then show ?thesis using xk rep_Obj(6) unfolding hf
      by (intro exI [of _ m1] exI [of _ m2] conjI) auto
  qed
next
  case (rep_Arr a vs xs)
  have "lo \<le> hi" using assms by (rule rep_bounds)
  then have "rep_in h lo lo HUndefined Undefined" by (intro rep_Undefined) simp
  then show ?thesis using rep_Arr \<open>lo \<le> hi\<close> by (intro exI [of _ lo] conjI) auto
qed (auto intro!: exI [of _ lo] rep_Undefined)

lemma rep_field_truthy:
  "rep_in h lo hi v x \<Longrightarrow> htruthy (hfield h v k) = truthy (field x k)"
  using rep_field [of h lo hi v x k] rep_truthy by blast

lemma rep_case_Str:
  "rep_in h lo hi v x \<Longrightarrow>
   (case v of HStr s \<Rightarrow> P s | _ \<Rightarrow> False) = (case x of Str s \<Rightarrow> P s | _ \<Rightarrow> False)"
  by (erule rep_in.cases) auto

lemma fields_update:
  "rep_in h lo hi v x \<Longrightarrow> True"
  "reps_fields h lo hi fs kvs \<Longrightarrow>
     reps_fields h lo hi (AList.update k (HStr s) fs) (AList.update k (Str s) kvs)"
  "reps_list h lo hi vs xs \<Longrightarrow> True"
proof (induction rule: rep_in_reps_fields_reps_list.inducts)
  case (fields_Nil lo hi h)
  have "rep_in h lo hi (HStr s) (Str s)" using fields_Nil by (rule rep_Str)
  moreover have "reps_fields h hi hi [] []" by (rule rep_in_reps_fields_reps_list.fields_Nil) simp
  ultimately have "reps_fields h lo hi [(k, HStr s)] [(k, Str s)]"
    by (rule rep_in_reps_fields_reps_list.fields_Cons)
  then show ?case by simp
next
  case (fields_Cons h lo mid v x hi fs kvs k')
  show ?case
  proof (cases "k' = k")
    case True
    have "lo \<le> mid" using fields_Cons.hyps by (auto dest: rep_bounds)
    then have "rep_in h lo mid (HStr s) (Str s)" by (rule rep_Str)
    then have "reps_fields h lo hi ((k, HStr s) # fs) ((k, Str s) # kvs)"
      using fields_Cons.hyps by (intro rep_in_reps_fields_reps_list.fields_Cons)
    then show ?thesis using True by simp
  next
    case False
    have "reps_fields h lo hi ((k', v) # AList.update k (HStr s) fs)
            ((k', x) # AList.update k (Str s) kvs)"
      using fields_Cons by (intro rep_in_reps_fields_reps_list.fields_Cons)
    then show ?thesis using False by simp
  qed
qed auto

text \<open>Writing a string into a property of a represented object.\<close>

lemma rep_write:
  assumes "rep_in h lo hi v x"
  shows "rep_in (hset_field h v k (HStr s)) lo hi v (set_field x k (Str s))
       \<and> length (hset_field h v k (HStr s)) = length h
       \<and> (\<forall>a. a < length h \<and> \<not> (lo \<le> a \<and> a < hi) \<longrightarrow> hset_field h v k (HStr s) ! a = h ! a)"
  using assms
proof (cases rule: rep_in.cases)
  case (rep_Obj a fs kvs)
  let ?h = "h[a := ObjCell (AList.update k (HStr s) fs)]"
  have la: "lo \<le> a" using rep_Obj by (auto dest: rep_bounds)
  have hs: "hset_field h v k (HStr s) = ?h" using rep_Obj by simp
  have "reps_fields h lo a (AList.update k (HStr s) fs) (AList.update k (Str s) kvs)"
    using rep_Obj(5) by (rule fields_update(2))
  then have "reps_fields ?h lo a (AList.update k (HStr s) fs) (AList.update k (Str s) kvs)"
    by (rule rep_local(2)) auto
  then have "rep_in ?h lo hi (HRef a) (Obj (AList.update k (Str s) kvs))"
    using rep_Obj by (intro rep_in_reps_fields_reps_list.rep_Obj) auto
  then show ?thesis unfolding hs using rep_Obj la by auto
qed (use assms in auto)

lemma write1_rep:
  assumes "rep_in h lo hi r x" and "htruthy (hfield h r k1)"
  shows "rep_in (hset_field h (hfield h r k1) k2 (HStr s)) lo hi r
           (set_field x k1 (set_field (field x k1) k2 (Str s)))
       \<and> length (hset_field h (hfield h r k1) k2 (HStr s)) = length h
       \<and> (\<forall>a. a < length h \<and> \<not> (lo \<le> a \<and> a < hi)
              \<longrightarrow> hset_field h (hfield h r k1) k2 (HStr s) ! a = h ! a)"
proof -
  let ?h = "hset_field h (hfield h r k1) k2 (HStr s)"
  from rep_field [OF assms(1), of k1] assms(2) obtain m1 m2 where
    m: "lo \<le> m1" "m2 \<le> hi" "rep_in h m1 m2 (hfield h r k1) (field x k1)"
    and ctx: "\<And>h' x'. length h' = length h
                \<Longrightarrow> (\<forall>a. a < length h \<and> \<not> (m1 \<le> a \<and> a < m2) \<longrightarrow> h' ! a = h ! a)
                \<Longrightarrow> rep_in h' m1 m2 (hfield h r k1) x'
                \<Longrightarrow> rep_in h' lo hi r (set_field x k1 x')"
    by blast
  from rep_write [OF m(3), of k2 s] have
    w: "rep_in ?h m1 m2 (hfield h r k1) (set_field (field x k1) k2 (Str s))"
      "length ?h = length h"
      "\<forall>a. a < length h \<and> \<not> (m1 \<le> a \<and> a < m2) \<longrightarrow> ?h ! a = h ! a"
    by blast+
  have "rep_in ?h lo hi r (set_field x k1 (set_field (field x k1) k2 (Str s)))"
    using ctx [OF w(2) w(3) w(1)] .
  moreover have "\<forall>a. a < length h \<and> \<not> (lo \<le> a \<and> a < hi) \<longrightarrow> ?h ! a = h ! a"
    using w(3) m(1,2) by auto
  ultimately show ?thesis using w(2) by blast
qed

lemma write2_rep:
  assumes "rep_in h lo hi r x" and "htruthy (hfield h r k1)"
    and "htruthy (hfield h (hfield h r k1) k2)"
  shows "rep_in (hset_field h (hfield h (hfield h r k1) k2) k3 (HStr s)) lo hi r
           (set_field x k1 (set_field (field x k1) k2
              (set_field (field (field x k1) k2) k3 (Str s))))"
proof -
  let ?h = "hset_field h (hfield h (hfield h r k1) k2) k3 (HStr s)"
  from rep_field [OF assms(1), of k1] assms(2) obtain m1 m2 where
    m: "rep_in h m1 m2 (hfield h r k1) (field x k1)"
    and ctx: "\<And>h' x'. length h' = length h
                \<Longrightarrow> (\<forall>a. a < length h \<and> \<not> (m1 \<le> a \<and> a < m2) \<longrightarrow> h' ! a = h ! a)
                \<Longrightarrow> rep_in h' m1 m2 (hfield h r k1) x'
                \<Longrightarrow> rep_in h' lo hi r (set_field x k1 x')"
    by blast
  from write1_rep [OF m assms(3), of k3 s] have
    w: "rep_in ?h m1 m2 (hfield h r k1)
          (set_field (field x k1) k2 (set_field (field (field x k1) k2) k3 (Str s)))"
      "length ?h = length h"
      "\<forall>a. a < length h \<and> \<not> (m1 \<le> a \<and> a < m2) \<longrightarrow> ?h ! a = h ! a"
    by blast+
  show ?thesis using ctx [OF w(2) w(3) w(1)] .
qed

lemma rep_field2_truthy:
  assumes "rep_in h lo hi r x"
  shows "htruthy (hfield h (hfield h r k1) k2) = truthy (field (field x k1) k2)"
    and "(case hfield h (hfield h r k1) k2 of HStr s \<Rightarrow> P s | _ \<Rightarrow> False)
           = (case field (field x k1) k2 of Str s \<Rightarrow> P s | _ \<Rightarrow> False)"
    and "htruthy (hfield h (hfield h (hfield h r k1) k2) k3)
           = truthy (field (field (field x k1) k2) k3)"
proof -
  from rep_field [OF assms, of k1] obtain m1 m2 where
    m: "rep_in h m1 m2 (hfield h r k1) (field x k1)" by blast
  from rep_field [OF m, of k2] obtain n1 n2 where
    n: "rep_in h n1 n2 (hfield h (hfield h r k1) k2) (field (field x k1) k2)" by blast
  show "htruthy (hfield h (hfield h r k1) k2) = truthy (field (field x k1) k2)"
    using n by (rule rep_truthy)
  show "(case hfield h (hfield h r k1) k2 of HStr s \<Rightarrow> P s | _ \<Rightarrow> False)
           = (case field (field x k1) k2 of Str s \<Rightarrow> P s | _ \<Rightarrow> False)"
    using n by (rule rep_case_Str)
  show "htruthy (hfield h (hfield h (hfield h r k1) k2) k3)
           = truthy (field (field (field x k1) k2) k3)"
    using n by (rule rep_field_truthy)
qed

lemma hredact_personDetails_rep:
  assumes "rep_in h lo hi r x"
  shows "rep_in (hredact_personDetails h r) lo hi r (redact_personDetails x)"
  using assms write2_rep [OF assms, of "''data''" "''personDetails''" "''photo''"]
  by (simp add: hredact_personDetails_def redact_personDetails_def Let_def
      rep_field_truthy [OF assms] rep_field2_truthy [OF assms])

lemma hredact_photo_rep:
  assumes "rep_in h lo hi r x"
  shows "rep_in (hredact_photo h r) lo hi r (redact_photo x)"
  using assms write1_rep [OF assms, of "''data''" "''photo''"]
  by (simp add: hredact_photo_def redact_photo_def Let_def
      rep_field_truthy [OF assms] rep_field2_truthy [OF assms])

lemma hredact_large_rep:
  assumes "rep_in h lo hi r x"
  shows "rep_in (hredact_large r h f) lo hi r (redact_large x f)"
  using assms write1_rep [OF assms, of "''data''" f]
  by (simp add: hredact_large_def redact_large_def Let_def
      rep_field_truthy [OF assms] rep_field2_truthy [OF assms])

lemma foldl_hredact_large_rep:
  "rep_in h lo hi r x \<Longrightarrow> rep_in (foldl (hredact_large r) h fs) lo hi r (foldl redact_large x fs)"
  by (induction fs arbitrary: h x) (simp_all add: hredact_large_rep)

lemma those_fields_Cons:
  "those_fields ((k, Some x) # rest) = Some kvs' \<longleftrightarrow>
     (\<exists>kvs. those_fields rest = Some kvs \<and> kvs' = (k, x) # kvs)"
  by auto

lemma rep_snapshot:
  "rep_in h lo hi v x \<Longrightarrow> \<exists>n. \<forall>m\<ge>n. snapshot m h v = Some x"
  "reps_fields h lo hi fs kvs \<Longrightarrow>
     \<exists>n. \<forall>m\<ge>n. those_fields (map (\<lambda>kv. (fst kv, snapshot m h (snd kv))) fs) = Some kvs"
  "reps_list h lo hi vs xs \<Longrightarrow> \<exists>n. \<forall>m\<ge>n. those (map (snapshot m h) vs) = Some xs"
proof (induction rule: rep_in_reps_fields_reps_list.inducts)
  case (rep_Obj a h fs lo kvs hi)
  then obtain n where
    n: "\<forall>m\<ge>n. those_fields (map (\<lambda>kv. (fst kv, snapshot m h (snd kv))) fs) = Some kvs"
    by blast
  have "\<forall>m\<ge>Suc n. snapshot m h (HRef a) = Some (Obj kvs)"
  proof (intro allI impI)
    fix m assume "Suc n \<le> m"
    then obtain m' where m': "m = Suc m'" "n \<le> m'" by (cases m) auto
    then show "snapshot m h (HRef a) = Some (Obj kvs)" using n rep_Obj.hyps by simp
  qed
  then show ?case by blast
next
  case (rep_Arr a h vs lo xs hi)
  then obtain n where n: "\<forall>m\<ge>n. those (map (snapshot m h) vs) = Some xs"
    by blast
  have "\<forall>m\<ge>Suc n. snapshot m h (HRef a) = Some (Arr xs)"
  proof (intro allI impI)
    fix m assume "Suc n \<le> m"
    then obtain m' where m': "m = Suc m'" "n \<le> m'" by (cases m) auto
    then show "snapshot m h (HRef a) = Some (Arr xs)" using n rep_Arr.hyps by simp
  qed
  then show ?case by blast
next
  case (fields_Cons h lo mid v x hi fs kvs k)
  then obtain n1 n2 where
    n1: "\<forall>m\<ge>n1. snapshot m h v = Some x" and
    n2: "\<forall>m\<ge>n2. those_fields (map (\<lambda>kv. (fst kv, snapshot m h (snd kv))) fs) = Some kvs"
    by blast
  have "\<forall>m\<ge>max n1 n2.
          those_fields (map (\<lambda>kv. (fst kv, snapshot m h (snd kv))) ((k, v) # fs))
            = Some ((k, x) # kvs)"
    using n1 n2 by simp
  then show ?case by blast
next
  case (list_Cons h lo mid v x hi vs xs)
  then obtain n1 n2 where
    n1: "\<forall>m\<ge>n1. snapshot m h v = Some x" and
    n2: "\<forall>m\<ge>n2. those (map (snapshot m h) vs) = Some xs"
    by blast
  have "\<forall>m\<ge>max n1 n2. those (map (snapshot m h) (v # vs)) = Some (x # xs)"
    using n1 n2 by simp
  then show ?case by blast
qed auto

lemma sanitized_personDetails_photo:
  assumes "truthy j" and "is_object j"
    and "truthy (field (field (field (json_copy j) ''data'') ''personDetails'') ''photo'')"
  shows "field (field (field (sanitizeResponseData j) ''data'') ''personDetails'') ''photo''
           = Str ''[PHOTO_DATA_REMOVED_FOR_STORAGE]''"
proof -
  from assms(3) obtain kvs where
    pd: "field (field (json_copy j) ''data'') ''personDetails'' = Obj kvs"
    using truthy_field_Obj by blast
  have "field (field (sanitizeResponseData j) ''data'') ''personDetails''
          = set_field (Obj kvs) ''photo'' (Str ''[PHOTO_DATA_REMOVED_FOR_STORAGE]'')"
    using assms pd
    by (simp add: sanitizeResponseData_def largeFields_def data_field_redact)
  then show ?thesis by (simp add: update_conv')
qed

text \<open>
  C10: for an object argument that \<open>JSON.stringify\<close> can walk, \<open>sanitizeResponseData\<close>
  returns the address of a new cell, and the value tree read from it is the value that
  the sanitizer computes from the argument's tree: the copy of that tree with the fixed
  places redacted, so in particular with the marker at \<open>data.personDetails.photo\<close> when
  that was truthy. Whatever the argument, the heap afterwards is the heap before followed
  by new cells that refer to new cells only, so no cell of the argument (nor of any other
  existing object) was written and the copy shares nothing with it; the value tree read
  from the argument is the same before and after; and an argument that is not an object
  is returned as it is.
\<close>

theorem sanitizeResponseData_heap_deep_copy:
  assumes run: "sanitizeResponseData_heap h d = (h', r)"
  shows "(\<exists>ext. h' = h @ ext \<and> list_all (fresh_cell (length h)) ext)
       \<and> (\<forall>n j. snapshot n h d = Some j \<longrightarrow> snapshot n h' d = Some j)
       \<and> (htruthy d \<and> his_object d \<and> (\<exists>v. r = Inr v)
            \<longrightarrow> (\<exists>a. r = Inr (HRef a) \<and> length h \<le> a))
       \<and> (\<forall>j. htruthy d \<and> his_object d \<and> snapshot (Suc (length h)) h d = Some j
            \<longrightarrow> (\<exists>a n. r = Inr (HRef a) \<and> length h \<le> a
                   \<and> snapshot n h' (HRef a) = Some (sanitizeResponseData j)
                   \<and> (truthy (field (field (field (json_copy j) ''data'') ''personDetails'') ''photo'')
                        \<longrightarrow> field (field (field (sanitizeResponseData j) ''data'') ''personDetails'')
                              ''photo''
                            = Str ''[PHOTO_DATA_REMOVED_FOR_STORAGE]'')))
       \<and> (\<not> (htruthy d \<and> his_object d) \<longrightarrow> r = Inr d \<and> h' = h)"
proof -
  from sanitizeResponseData_heap_extends [OF run] obtain ext where
    ext: "h' = h @ ext" "list_all (fresh_cell (length h)) ext"
    by (rule extendsE)
  have fresh: "htruthy d \<and> his_object d \<and> (\<exists>v. r = Inr v)
                 \<longrightarrow> (\<exists>a. r = Inr (HRef a) \<and> length h \<le> a)"
  proof
    assume a: "htruthy d \<and> his_object d \<and> (\<exists>v. r = Inr v)"
    then obtain b where d: "d = HRef b" by (cases d) auto
    from a run obtain j v h1 where
      j: "snapshot (Suc (length h)) h d = Some j" and al: "alloc (json_copy j) h = (v, h1)"
      and r: "r = Inr v"
      by (auto simp: sanitizeResponseData_heap_def split: option.splits prod.splits)
    from j d have "(\<exists>xs. j = Arr xs) \<or> (\<exists>kvs. j = Obj kvs)"
      by (auto split: if_splits cell.splits)
    then have "\<exists>a. v = HRef a" using al by (auto split: prod.splits)
    moreover have "fresh_val (length h) v" using alloc_extends_heap [OF al] by simp
    ultimately show "\<exists>a. r = Inr (HRef a) \<and> length h \<le> a" using r by auto
  qed
  have copy: "\<forall>j. htruthy d \<and> his_object d \<and> snapshot (Suc (length h)) h d = Some j
            \<longrightarrow> (\<exists>a n. r = Inr (HRef a) \<and> length h \<le> a
                   \<and> snapshot n h' (HRef a) = Some (sanitizeResponseData j)
                   \<and> (truthy (field (field (field (json_copy j) ''data'') ''personDetails'') ''photo'')
                        \<longrightarrow> field (field (field (sanitizeResponseData j) ''data'') ''personDetails'')
                              ''photo''
                            = Str ''[PHOTO_DATA_REMOVED_FOR_STORAGE]''))"
  proof (intro allI impI)
    fix j
    assume a: "htruthy d \<and> his_object d \<and> snapshot (Suc (length h)) h d = Some j"
    then obtain b where d: "d = HRef b" by (cases d) auto
    obtain v h1 where al: "alloc (json_copy j) h = (v, h1)" by (cases "alloc (json_copy j) h")
    let ?h4 = "foldl (hredact_large v) (hredact_photo (hredact_personDetails h1 v) v) largeFields"
    have res: "h' = ?h4" "r = Inr v"
      using run a al by (auto simp: sanitizeResponseData_heap_def)
    from a d have jo: "truthy j" "is_object j"
      by (auto split: if_splits cell.splits)
    have san: "sanitizeResponseData j
        = foldl redact_large (redact_photo (redact_personDetails (json_copy j))) largeFields"
      using jo by (simp add: sanitizeResponseData_def)
    have "rep_in h1 (length h) (length h1) v (json_copy j)"
      using alloc_rep(1) [of "json_copy j" h] al by simp
    then have "rep_in ?h4 (length h) (length h1) v (sanitizeResponseData j)"
      unfolding san
      by (intro foldl_hredact_large_rep hredact_photo_rep hredact_personDetails_rep)
    then obtain n where n: "snapshot n ?h4 v = Some (sanitizeResponseData j)"
      using rep_snapshot(1) by blast
    from fresh a res obtain c where c: "v = HRef c" "length h \<le> c" by auto
    show "\<exists>a n. r = Inr (HRef a) \<and> length h \<le> a
                   \<and> snapshot n h' (HRef a) = Some (sanitizeResponseData j)
                   \<and> (truthy (field (field (field (json_copy j) ''data'') ''personDetails'') ''photo'')
                        \<longrightarrow> field (field (field (sanitizeResponseData j) ''data'') ''personDetails'')
                              ''photo''
                            = Str ''[PHOTO_DATA_REMOVED_FOR_STORAGE]'')"
      using n c res sanitized_personDetails_photo [OF jo] by auto
  qed
  have prim: "\<not> (htruthy d \<and> his_object d) \<longrightarrow> r = Inr d \<and> h' = h"
    using run by (auto simp: sanitizeResponseData_heap_def)
  have c1: "\<exists>ext. h' = h @ ext \<and> list_all (fresh_cell (length h)) ext"
    using ext by blast
  have c2: "\<forall>n j. snapshot n h d = Some j \<longrightarrow> snapshot n h' d = Some j"
    unfolding ext(1) using snapshot_append by blast
  show ?thesis
    by (rule conjI [OF c1 conjI [OF c2 conjI [OF fresh conjI [OF copy prim]]]])
qed


lemma photo_heap_snapshot:
  "snapshot (Suc (length photo_heap)) photo_heap (HRef 2) = Some photo_response"
  by (simp add: photo_heap_def photo_response_def)

lemma photo_heap_run:
  "sanitizeResponseData_heap photo_heap (HRef 2)
     = (photo_copy ''[PHOTO_DATA_REMOVED_FOR_STORAGE]'', Inr (HRef 5))"
proof -
  have copy: "json_copy photo_response = photo_response"
    by (simp add: photo_response_def)
  have al: "alloc photo_response photo_heap = (HRef 5, photo_copy ''data:image/jpeg;base64,AAA'')"
    by (simp add: photo_response_def photo_heap_def photo_copy_def)
  have pd: "hredact_personDetails (photo_copy ''data:image/jpeg;base64,AAA'') (HRef 5)
              = photo_copy ''[PHOTO_DATA_REMOVED_FOR_STORAGE]''"
    by (simp add: photo_copy_def photo_heap_def hredact_personDetails_def Let_def)
  have ph: "hredact_photo (photo_copy ''[PHOTO_DATA_REMOVED_FOR_STORAGE]'') (HRef 5)
              = photo_copy ''[PHOTO_DATA_REMOVED_FOR_STORAGE]''"
    by (simp add: photo_copy_def photo_heap_def hredact_photo_def Let_def)
  have lg: "\<And>f. f \<in> set largeFields \<Longrightarrow>
              hredact_large (HRef 5) (photo_copy ''[PHOTO_DATA_REMOVED_FOR_STORAGE]'') f
              = photo_copy ''[PHOTO_DATA_REMOVED_FOR_STORAGE]''"
    by (auto simp: largeFields_def photo_copy_def photo_heap_def hredact_large_def Let_def)
  have fl: "foldl (hredact_large (HRef 5)) (photo_copy ''[PHOTO_DATA_REMOVED_FOR_STORAGE]'') largeFields
              = photo_copy ''[PHOTO_DATA_REMOVED_FOR_STORAGE]''"
    by (simp add: largeFields_def lg)
  show ?thesis
    unfolding sanitizeResponseData_heap_def photo_heap_snapshot
    by (simp add: copy al pd ph fl)
qed

theorem sanitizeResponseData_heap_deep_copy_witness:
  "sanitizeResponseData_heap photo_heap (HRef 2)
     = (photo_copy ''[PHOTO_DATA_REMOVED_FOR_STORAGE]'', Inr (HRef 5))
   \<and> (\<exists>ext. photo_copy ''[PHOTO_DATA_REMOVED_FOR_STORAGE]'' = photo_heap @ ext)
   \<and> snapshot (Suc (length photo_heap)) (photo_copy ''[PHOTO_DATA_REMOVED_FOR_STORAGE]'') (HRef 2)
       = Some photo_response
   \<and> snapshot (Suc (length photo_heap)) (photo_copy ''[PHOTO_DATA_REMOVED_FOR_STORAGE]'') (HRef 5)
       = Some (sanitizeResponseData photo_response)
   \<and> field (field (field (sanitizeResponseData photo_response) ''data'') ''personDetails'') ''photo''
       = Str ''[PHOTO_DATA_REMOVED_FOR_STORAGE]''"
proof -
  have copied: "snapshot (Suc (length photo_heap)) (photo_copy ''[PHOTO_DATA_REMOVED_FOR_STORAGE]'') (HRef 5)
       = Some (Obj [(''success'', Bool True),
          (''data'', Obj [(''nid'', Str ''12345678901234567''), (''verified'', Bool True),
                          (''personDetails'',
                             Obj [(''name'', Str ''Jane Doe''),
                                  (''photo'', Str ''[PHOTO_DATA_REMOVED_FOR_STORAGE]'')])])])"
    by (simp add: photo_copy_def photo_heap_def)
  have pure: "sanitizeResponseData photo_response
      = Obj [(''success'', Bool True),
          (''data'', Obj [(''nid'', Str ''12345678901234567''), (''verified'', Bool True),
                          (''personDetails'',
                             Obj [(''name'', Str ''Jane Doe''),
                                  (''photo'', Str ''[PHOTO_DATA_REMOVED_FOR_STORAGE]'')])])]"
    by (simp add: sanitizeResponseData_def photo_response_def redact_personDetails_def
        redact_photo_def redact_large_def largeFields_def Let_def)
  note deep = sanitizeResponseData_heap_deep_copy [OF photo_heap_run]
  have ext: "\<exists>ext. photo_copy ''[PHOTO_DATA_REMOVED_FOR_STORAGE]'' = photo_heap @ ext"
    using deep by blast
  have kept: "snapshot (Suc (length photo_heap)) (photo_copy ''[PHOTO_DATA_REMOVED_FOR_STORAGE]'') (HRef 2)
       = Some photo_response"
    using deep photo_heap_snapshot by blast
  have arg: "htruthy (HRef 2)" "his_object (HRef 2)"
    "truthy (field (field (field (json_copy photo_response) ''data'') ''personDetails'') ''photo'')"
    by (simp_all add: photo_response_def)
  have marker: "field (field (field (sanitizeResponseData photo_response) ''data'') ''personDetails'')
                  ''photo''
       = Str ''[PHOTO_DATA_REMOVED_FOR_STORAGE]''"
    using deep arg photo_heap_snapshot by blast
  have copied': "snapshot (Suc (length photo_heap)) (photo_copy ''[PHOTO_DATA_REMOVED_FOR_STORAGE]'') (HRef 5)
       = Some (sanitizeResponseData photo_response)"
    using copied pure by (simp only:)
  show ?thesis using photo_heap_run ext kept copied' marker by blast
qed

end
